theory Spec2Isabelle
  imports Main "HOL-Library.Word"
begin

section \<open>comparison.py: the comparison taxonomy\<close>

text \<open>
  \<^verbatim>\<open>CompType\<close> is a Python \<^verbatim>\<open>Enum\<close> whose member values are dictionaries with the keys
  \<^verbatim>\<open>"path"\<close>, \<^verbatim>\<open>"name"\<close> and \<^verbatim>\<open>"content"\<close>. The eight dictionaries are pairwise different, so no
  member is an alias of another, and iterating over the enum yields the members in the order
  of their definition.
\<close>

datatype CompType =
  MATCH | PATH_NAME_DUP | CONTENT_NAME_DUP | CONTENT_PATH_DUP
  | NAME_DUP | CONTENT_DUP | PATH_DUP | UNIQUE

datatype trait = Path | Name | Content

fun CompType_value :: "CompType \<Rightarrow> trait \<Rightarrow> bool" where
  "CompType_value MATCH t = (case t of Path \<Rightarrow> True | Name \<Rightarrow> True | Content \<Rightarrow> True)"
| "CompType_value PATH_NAME_DUP t = (case t of Path \<Rightarrow> True | Name \<Rightarrow> True | Content \<Rightarrow> False)"
| "CompType_value CONTENT_NAME_DUP t = (case t of Path \<Rightarrow> False | Name \<Rightarrow> True | Content \<Rightarrow> True)"
| "CompType_value CONTENT_PATH_DUP t = (case t of Path \<Rightarrow> True | Name \<Rightarrow> False | Content \<Rightarrow> True)"
| "CompType_value NAME_DUP t = (case t of Path \<Rightarrow> False | Name \<Rightarrow> True | Content \<Rightarrow> False)"
| "CompType_value CONTENT_DUP t = (case t of Path \<Rightarrow> False | Name \<Rightarrow> False | Content \<Rightarrow> True)"
| "CompType_value PATH_DUP t = (case t of Path \<Rightarrow> True | Name \<Rightarrow> False | Content \<Rightarrow> False)"
| "CompType_value UNIQUE t = (case t of Path \<Rightarrow> False | Name \<Rightarrow> False | Content \<Rightarrow> False)"

text \<open>The members in iteration order (\<^verbatim>\<open>for comp_type in CompType\<close>).\<close>

definition CompType_members :: "CompType list" where
  "CompType_members =
     [MATCH, PATH_NAME_DUP, CONTENT_NAME_DUP, CONTENT_PATH_DUP,
      NAME_DUP, CONTENT_DUP, PATH_DUP, UNIQUE]"

text \<open>
  A \<^verbatim>\<open>Comparison\<close> holds references to two \<^verbatim>\<open>File\<close> objects and a \<^verbatim>\<open>CompType\<close>. \<^verbatim>\<open>File\<close>
  defines neither \<^verbatim>\<open>__eq__\<close> nor \<^verbatim>\<open>__hash__\<close>, so a \<^verbatim>\<open>File\<close> object is its identity: a
  reference is a natural number, the address of the object in the heap below.
\<close>

type_synonym ref = nat

record Comparison =
  fileA :: ref
  fileB :: ref
  comp_type :: CompType

section \<open>file.py: file descriptors and the staged content comparison\<close>

text \<open>
  A \<^verbatim>\<open>pathlib\<close> path is the list of its parts; \<^verbatim>\<open>.parent\<close> drops the last part, and the
  parent of the empty relative path is the empty path itself.
\<close>

type_synonym path = "string list"
type_synonym bytes = "8 word list"

definition parent :: "path \<Rightarrow> path" where
  "parent p = butlast p"

text \<open>The fields \<^verbatim>\<open>File.__init__\<close> sets; \<^verbatim>\<open>size\<close> is written \<open>size_f\<close>.\<close>

record File =
  name :: string
  rel_path :: path
  dir_path :: path
  abs_path :: path
  size_f :: nat
  quick_hash :: "string option"
  full_hash :: "string option"

text \<open>
  The exceptions of the two modules. \<^verbatim>\<open>compare_to\<close> raises \<^verbatim>\<open>ValueError\<close> in two places (a
  file compared to itself; no \<^verbatim>\<open>CompType\<close> found); \<^verbatim>\<open>open\<close> raises \<^verbatim>\<open>OSError\<close>
  (\<open>IOError\<close>) on a file that cannot be read; a missing dictionary key and an index into an
  empty list raise \<^verbatim>\<open>KeyError\<close> and \<^verbatim>\<open>IndexError\<close>; iterating over a dictionary whose keys
  changed raises \<^verbatim>\<open>RuntimeError\<close>.
\<close>

datatype error =
  ValueError_self | ValueError_no_CompType | IOError | KeyError | IndexError | RuntimeError

text \<open>
  What the program does not own: the file system (\<open>read_bytes p\<close> is the content of the
  file at \<open>p\<close>, or \<open>None\<close> when \<^verbatim>\<open>open\<close> fails) and the two digests of \<^verbatim>\<open>hashlib\<close>, as
  functions from the hashed bytes to the hexadecimal digest.
\<close>

record env =
  read_bytes :: "path \<Rightarrow> bytes option"
  md5_hexdigest :: "bytes \<Rightarrow> string"
  sha256_hexdigest :: "bytes \<Rightarrow> string"

text \<open>
  The objects the program mutates: the heap of \<^verbatim>\<open>File\<close> objects, and a log with one entry
  for every fingerprint that was computed from the file's content.
\<close>

datatype hash_event = QuickHashed ref | FullHashed ref

record world =
  heap :: "ref \<Rightarrow> File"
  hash_log :: "hash_event list"

text \<open>Python's truth value of a hash field: \<^verbatim>\<open>None\<close> and the empty string are false.\<close>

definition truthy :: "string option \<Rightarrow> bool" where
  "truthy h = (case h of None \<Rightarrow> False | Some s \<Rightarrow> s \<noteq> [])"

text \<open>\<^verbatim>\<open>__create_quick_hash\<close>: the MD5 digest of the first \<open>chunk_size = 4096\<close> bytes.\<close>

definition create_quick_hash :: "env \<Rightarrow> File \<Rightarrow> error + string" where
  "create_quick_hash e f =
     (case read_bytes e (abs_path f) of
        None \<Rightarrow> Inl IOError
      | Some bs \<Rightarrow> Inr (md5_hexdigest e (take 4096 bs)))"

text \<open>
  \<^verbatim>\<open>__create_full_hash\<close>: \<^verbatim>\<open>while chunk := file.read(8192): hasher.update(chunk)\<close>. The hasher
  is the bytes it has been fed so far; the loop ends at the first empty chunk.
\<close>

function hasher_update_loop :: "bytes \<Rightarrow> bytes \<Rightarrow> bytes" where
  "hasher_update_loop rest hasher =
     (let chunk = take 8192 rest in
      if chunk = [] then hasher
      else hasher_update_loop (drop 8192 rest) (hasher @ chunk))"
  by pat_completeness auto
termination
  by (relation "measure (\<lambda>(rest, hasher). length rest)") auto

declare hasher_update_loop.simps [simp del]

definition create_full_hash :: "env \<Rightarrow> File \<Rightarrow> error + string" where
  "create_full_hash e f =
     (case read_bytes e (abs_path f) of
        None \<Rightarrow> Inl IOError
      | Some bs \<Rightarrow> Inr (sha256_hexdigest e (hasher_update_loop bs [])))"

text \<open>
  \<^verbatim>\<open>if not self.quick_hash: self.quick_hash = self.__create_quick_hash()\<close>, and the same for
  the full hash. When \<^verbatim>\<open>open\<close> raises, nothing has been assigned.
\<close>

definition fill_quick_hash :: "env \<Rightarrow> ref \<Rightarrow> 'a world_scheme \<Rightarrow> error + 'a world_scheme" where
  "fill_quick_hash e a w =
     (if \<not> truthy (quick_hash (heap w a)) then
        (case create_quick_hash e (heap w a) of
           Inl x \<Rightarrow> Inl x
         | Inr h \<Rightarrow>
             Inr (w\<lparr>heap := (heap w)(a := (heap w a)\<lparr>quick_hash := Some h\<rparr>),
                    hash_log := hash_log w @ [QuickHashed a]\<rparr>))
      else Inr w)"

definition fill_full_hash :: "env \<Rightarrow> ref \<Rightarrow> 'a world_scheme \<Rightarrow> error + 'a world_scheme" where
  "fill_full_hash e a w =
     (if \<not> truthy (full_hash (heap w a)) then
        (case create_full_hash e (heap w a) of
           Inl x \<Rightarrow> Inl x
         | Inr h \<Rightarrow>
             Inr (w\<lparr>heap := (heap w)(a := (heap w a)\<lparr>full_hash := Some h\<rparr>),
                    hash_log := hash_log w @ [FullHashed a]\<rparr>))
      else Inr w)"

text \<open>
  \<^verbatim>\<open>File.compare_content(self, other)\<close>. The result is the exception raised or the verdict,
  together with the world as the call leaves it.
\<close>

definition compare_content ::
  "env \<Rightarrow> ref \<Rightarrow> ref \<Rightarrow> 'a world_scheme \<Rightarrow> (error + bool) \<times> 'a world_scheme" where
  "compare_content e self other w =
     (if size_f (heap w self) \<noteq> size_f (heap w other) then (Inr False, w)
      else
        (case fill_quick_hash e self w of
           Inl x \<Rightarrow> (Inl x, w)
         | Inr w1 \<Rightarrow>
        (case fill_quick_hash e other w1 of
           Inl x \<Rightarrow> (Inl x, w1)
         | Inr w2 \<Rightarrow>
        if quick_hash (heap w2 self) \<noteq> quick_hash (heap w2 other) then (Inr False, w2)
        else
        (case fill_full_hash e self w2 of
           Inl x \<Rightarrow> (Inl x, w2)
         | Inr w3 \<Rightarrow>
        (case fill_full_hash e other w3 of
           Inl x \<Rightarrow> (Inl x, w3)
         | Inr w4 \<Rightarrow>
        if full_hash (heap w4 self) \<noteq> full_hash (heap w4 other) then (Inr False, w4)
        else (Inr (full_hash (heap w4 self) = full_hash (heap w4 other)), w4))))))"

text \<open>
  \<^verbatim>\<open>File.compare_to(self, other)\<close>: the three traits, then the first member of \<^verbatim>\<open>CompType\<close>
  whose dictionary equals them; \<open>Inr None\<close> is the \<^verbatim>\<open>return None\<close> of the \<open>PATH_DUP\<close> case,
  and a loop that finds no member falls through to the final \<^verbatim>\<open>raise ValueError\<close>.
\<close>

definition compare_to ::
  "env \<Rightarrow> ref \<Rightarrow> ref \<Rightarrow> 'a world_scheme \<Rightarrow> (error + Comparison option) \<times> 'a world_scheme" where
  "compare_to e self other w =
     (if self = other then (Inl ValueError_self, w)
      else
        let same_name = (name (heap w self) = name (heap w other));
            same_path = (parent (rel_path (heap w self)) = parent (rel_path (heap w other)))
        in
        (case compare_content e self other w of
           (Inl x, w') \<Rightarrow> (Inl x, w')
         | (Inr same_content, w') \<Rightarrow>
             (case find (\<lambda>t. CompType_value t Path = same_path
                            \<and> CompType_value t Name = same_name
                            \<and> CompType_value t Content = same_content) CompType_members of
                None \<Rightarrow> (Inl ValueError_no_CompType, w')
              | Some t \<Rightarrow>
                  (let comparison = \<lparr>fileA = self, fileB = other, comp_type = t\<rparr> in
                   if comp_type comparison = PATH_DUP then (Inr None, w')
                   else (Inr (Some comparison), w')))))"

section \<open>comparison_manager.py: classification and resolution\<close>

subsection \<open>The collaborators that are not among the sources\<close>

text \<open>An insertion-ordered Python dictionary as an association list.\<close>

definition dict_set :: "'k \<Rightarrow> 'v \<Rightarrow> ('k \<times> 'v) list \<Rightarrow> ('k \<times> 'v) list" where
  "dict_set k v d =
     (if k \<in> fst ` set d then map (\<lambda>(k', v'). if k' = k then (k', v) else (k', v')) d
      else d @ [(k, v)])"

text \<open>
  Modelled from the spec: \<^verbatim>\<open>comparison_index.py\<close> (the class \<^verbatim>\<open>ComparisonIndex\<close>) is not among
  the sources. The spec describes the category bucket as a map from "a grouping key (e.g.,
  shared name, or the pair itself) to the ordered list of member files/outcomes sharing that
  key", "mutated during classification (insertion) and during resolution (removal of files
  the user discards)". Here the key of a filed outcome is the pair itself and the key of a
  file filed on its own is the file; the members of a group are \<^verbatim>\<open>File\<close> references.
\<close>

datatype group_key = PairKey ref ref | FileKey ref

type_synonym ComparisonIndex = "(group_key \<times> ref list) list"

text \<open>Modelled from the spec: \<^verbatim>\<open>ComparisonIndex(type)\<close>, a bucket with no group.\<close>

definition new_ComparisonIndex :: "CompType \<Rightarrow> ComparisonIndex" where
  "new_ComparisonIndex t = []"

text \<open>
  Modelled from the spec: \<^verbatim>\<open>ComparisonIndex.add_comparison\<close> files an outcome, the group of
  its two files under the pair as key.
\<close>

definition add_comparison :: "Comparison \<Rightarrow> ComparisonIndex \<Rightarrow> ComparisonIndex" where
  "add_comparison c index = dict_set (PairKey (fileA c) (fileB c)) [fileA c, fileB c] index"

text \<open>Modelled from the spec: \<^verbatim>\<open>ComparisonIndex.add_file\<close> files a single file.\<close>

definition add_file :: "ref \<Rightarrow> ComparisonIndex \<Rightarrow> ComparisonIndex" where
  "add_file f index = dict_set (FileKey f) [f] index"

text \<open>
  Modelled from the spec: \<^verbatim>\<open>ComparisonIndex.set_comparisons\<close> makes the kept files the members
  of the group being resolved ("remove every group member not in the kept subset"). The
  source passes the kept files only; the key that the absent method derives from them is
  an argument here.
\<close>

definition set_comparisons :: "group_key \<Rightarrow> ref list \<Rightarrow> ComparisonIndex \<Rightarrow> ComparisonIndex" where
  "set_comparisons key kept index = dict_set key kept index"

text \<open>
  Modelled from the spec: \<^verbatim>\<open>ComparisonIndex.remove_comparisons\<close> removes a discarded file from
  the bucket ("removal of files the user discards"), that is from every group of it.
\<close>

definition remove_comparisons :: "ref \<Rightarrow> ComparisonIndex \<Rightarrow> ComparisonIndex" where
  "remove_comparisons f index = map (\<lambda>(k, members). (k, removeAll f members)) index"

text \<open>
  Modelled from the spec: \<^verbatim>\<open>dir_index.py\<close> (the class \<^verbatim>\<open>DirIndex\<close>) is not among the sources.
  The traversal supplies "the complete list of File Descriptors plus two indexes,
  byName: name -> list<FileDescriptor> and bySize: size -> list<FileDescriptor>". Looking
  up a key that an index does not have raises \<^verbatim>\<open>KeyError\<close>.
\<close>

record DirIndex =
  file_list :: "ref list"
  name_index :: "string \<rightharpoonup> ref list"
  size_index :: "nat \<rightharpoonup> ref list"

text \<open>
  Modelled from the spec: \<^verbatim>\<open>cli.py\<close> is not among the sources. Its three calls are recorded
  in a transcript: \<^verbatim>\<open>display_files\<close> and \<^verbatim>\<open>prompt_build_diff\<close> return nothing that the engine
  uses, \<^verbatim>\<open>prompt_keep_options\<close> returns the files the user keeps. The user is a function
  from the transcript so far and the files shown to the files kept.
\<close>

datatype cli_event =
  Display_files CompType "ref list"
  | Prompt_build_diff "ref list"
  | Prompt_keep_options "ref list" "ref list"

type_synonym user = "cli_event list \<Rightarrow> ref list \<Rightarrow> ref list"

subsection \<open>The manager\<close>

text \<open>
  The keys of \<^verbatim>\<open>comparison_cache\<close> are pairs of objects compared by identity: the pairs of
  \<^verbatim>\<open>File\<close> objects that \<^verbatim>\<open>_add_comparisons\<close> stores, and the pairs of the manager itself with
  a \<^verbatim>\<open>File\<close> that \<^verbatim>\<open>_compare_file_against_group\<close> looks up.
\<close>

datatype obj = ManagerObj | FileObj ref

record state = world +
  comparisons :: "CompType \<Rightarrow> ComparisonIndex"
  comparison_cache :: "(obj \<times> obj) \<rightharpoonup> Comparison"
  cli_log :: "cli_event list"

text \<open>\<^verbatim>\<open>ComparisonManager.__init__\<close>, over a given world.\<close>

definition init_manager :: "world \<Rightarrow> state" where
  "init_manager w =
     \<lparr>heap = heap w, hash_log = hash_log w,
      comparisons = (\<lambda>t. new_ComparisonIndex t), comparison_cache = Map.empty, cli_log = []\<rparr>"

text \<open>
  \<^verbatim>\<open>_compare_file_against_group(self, file, group)\<close>; \<open>found\<close> is the list \<^verbatim>\<open>comparisons\<close> so far.
  In the source \<^verbatim>\<open>self\<close> is the manager, and both cache lookups use the key
  \<^verbatim>\<open>(self, other_file)\<close>. A \<^verbatim>\<open>Comparison\<close> object is always true, so a lookup is true when it
  finds an entry.
\<close>

fun compare_file_against_group ::
  "env \<Rightarrow> ref \<Rightarrow> ref list \<Rightarrow> Comparison list \<Rightarrow> state \<Rightarrow> (error + Comparison list) \<times> state" where
  "compare_file_against_group e file [] found st = (Inr found, st)"
| "compare_file_against_group e file (other_file # others) found st =
     (if file \<noteq> other_file
         \<and> \<not> (comparison_cache st (ManagerObj, FileObj other_file) \<noteq> None
              \<or> comparison_cache st (ManagerObj, FileObj other_file) \<noteq> None)
      then
        (case compare_to e file other_file st of
           (Inl x, st') \<Rightarrow> (Inl x, st')
         | (Inr new_comparison, st') \<Rightarrow>
             (case new_comparison of
                Some c \<Rightarrow> compare_file_against_group e file others (found @ [c]) st'
              | None \<Rightarrow> compare_file_against_group e file others found st'))
      else compare_file_against_group e file others found st)"

text \<open>\<^verbatim>\<open>_add_comparisons(self, comparisons)\<close>; \<open>non_unique_added\<close> is the flag so far.\<close>

fun add_comparisons :: "Comparison list \<Rightarrow> bool \<Rightarrow> state \<Rightarrow> bool \<times> state" where
  "add_comparisons [] non_unique_added st = (non_unique_added, st)"
| "add_comparisons (c # cs) non_unique_added st =
     (let st1 = st\<lparr>comparison_cache :=
                     (comparison_cache st)((FileObj (fileA c), FileObj (fileB c)) \<mapsto> c)\<rparr>
      in
      if comp_type c \<noteq> UNIQUE then
        add_comparisons cs True
          (st1\<lparr>comparisons :=
                 (comparisons st1)
                   (comp_type c := add_comparison c (comparisons st1 (comp_type c)))\<rparr>)
      else add_comparisons cs non_unique_added st1)"

text \<open>The body of the loop of \<^verbatim>\<open>add_dir_index\<close>, for one file of \<^verbatim>\<open>dir_index.file_list\<close>.\<close>

definition analyze_file :: "env \<Rightarrow> DirIndex \<Rightarrow> ref \<Rightarrow> state \<Rightarrow> (error + unit) \<times> state" where
  "analyze_file e dir_index file st =
     (case name_index dir_index (name (heap st file)) of
        None \<Rightarrow> (Inl KeyError, st)
      | Some same_name_files \<Rightarrow>
     (case compare_file_against_group e file same_name_files [] st of
        (Inl x, st1) \<Rightarrow> (Inl x, st1)
      | (Inr name_comparisons, st1) \<Rightarrow>
     (case add_comparisons name_comparisons False st1 of
        (found_name_compare, st2) \<Rightarrow>
     (case size_index dir_index (size_f (heap st2 file)) of
        None \<Rightarrow> (Inl KeyError, st2)
      | Some same_size_files \<Rightarrow>
     (case compare_file_against_group e file same_size_files [] st2 of
        (Inl x, st3) \<Rightarrow> (Inl x, st3)
      | (Inr size_comparisons, st3) \<Rightarrow>
     (case add_comparisons size_comparisons False st3 of
        (found_size_compare, st4) \<Rightarrow>
          if \<not> found_name_compare \<and> \<not> found_size_compare then
            (Inr (),
             st4\<lparr>comparisons :=
                   (comparisons st4)(UNIQUE := add_file file (comparisons st4 UNIQUE))\<rparr>)
          else (Inr (), st4)))))))"

fun add_dir_index_loop :: "env \<Rightarrow> DirIndex \<Rightarrow> ref list \<Rightarrow> state \<Rightarrow> (error + unit) \<times> state" where
  "add_dir_index_loop e dir_index [] st = (Inr (), st)"
| "add_dir_index_loop e dir_index (file # files) st =
     (case analyze_file e dir_index file st of
        (Inl x, st') \<Rightarrow> (Inl x, st')
      | (Inr u, st') \<Rightarrow> add_dir_index_loop e dir_index files st')"

definition add_dir_index :: "env \<Rightarrow> DirIndex \<Rightarrow> state \<Rightarrow> (error + unit) \<times> state" where
  "add_dir_index e dir_index st = add_dir_index_loop e dir_index (file_list dir_index) st"

text \<open>
  \<^verbatim>\<open>resolve_matches\<close>. The loop runs over the keys the bucket has when it starts and reads the
  group of each key when it reaches it; a key that is gone by then is the dictionary
  changing under its iteration.
\<close>

fun resolve_matches_loop :: "group_key list \<Rightarrow> state \<Rightarrow> (error + unit) \<times> state" where
  "resolve_matches_loop [] st = (Inr (), st)"
| "resolve_matches_loop (key # keys) st =
     (case map_of (comparisons st MATCH) key of
        None \<Rightarrow> (Inl RuntimeError, st)
      | Some matches \<Rightarrow>
          (case matches of
             [] \<Rightarrow> (Inl IndexError, st)
           | m # ms \<Rightarrow>
               resolve_matches_loop keys
                 (st\<lparr>comparisons :=
                       (comparisons st)
                         (MATCH := set_comparisons key [m] (comparisons st MATCH))\<rparr>)))"

definition resolve_matches :: "state \<Rightarrow> (error + unit) \<times> state" where
  "resolve_matches st = resolve_matches_loop (map fst (comparisons st MATCH)) st"

text \<open>\<^verbatim>\<open>resolve_dups(self, type)\<close>: the first loop, then the removals it queued.\<close>

fun resolve_dups_loop ::
  "user \<Rightarrow> CompType \<Rightarrow> group_key list \<Rightarrow> ref list \<Rightarrow> state \<Rightarrow> (error + ref list) \<times> state" where
  "resolve_dups_loop u type [] to_remove st = (Inr to_remove, st)"
| "resolve_dups_loop u type (key # keys) to_remove st =
     (case map_of (comparisons st type) key of
        None \<Rightarrow> (Inl RuntimeError, st)
      | Some dup_list \<Rightarrow>
          (let st1 = st\<lparr>cli_log := cli_log st @ [Display_files type dup_list]\<rparr>;
               st2 = (if \<not> CompType_value type Content
                      then st1\<lparr>cli_log := cli_log st1 @ [Prompt_build_diff dup_list]\<rparr>
                      else st1);
               user_choice = u (cli_log st2) dup_list;
               st3 = st2\<lparr>cli_log := cli_log st2 @ [Prompt_keep_options dup_list user_choice]\<rparr>
           in
           if length user_choice = 0 then
             (case dup_list of
                [] \<Rightarrow> (Inl IndexError, st3)
              | f # fs \<Rightarrow> resolve_dups_loop u type keys (to_remove @ [f]) st3)
           else
             resolve_dups_loop u type keys to_remove
               (st3\<lparr>comparisons :=
                      (comparisons st3)
                        (type := set_comparisons key user_choice (comparisons st3 type))\<rparr>)))"

definition resolve_dups :: "user \<Rightarrow> CompType \<Rightarrow> state \<Rightarrow> (error + unit) \<times> state" where
  "resolve_dups u type st =
     (case resolve_dups_loop u type (map fst (comparisons st type)) [] st of
        (Inl x, st') \<Rightarrow> (Inl x, st')
      | (Inr to_remove, st') \<Rightarrow>
          (Inr (),
           st'\<lparr>comparisons :=
                 (comparisons st')
                   (type := fold remove_comparisons to_remove (comparisons st' type))\<rparr>))"

text \<open>\<^verbatim>\<open>resolve_all\<close>, over the members of \<^verbatim>\<open>CompType\<close> in their order.\<close>

fun resolve_all_loop :: "user \<Rightarrow> CompType list \<Rightarrow> state \<Rightarrow> (error + unit) \<times> state" where
  "resolve_all_loop u [] st = (Inr (), st)"
| "resolve_all_loop u (type # types) st =
     (if type = MATCH then
        (case resolve_matches st of
           (Inl x, st') \<Rightarrow> (Inl x, st')
         | (Inr r, st') \<Rightarrow> resolve_all_loop u types st')
      else if type = UNIQUE then resolve_all_loop u types st
      else
        (case resolve_dups u type st of
           (Inl x, st') \<Rightarrow> (Inl x, st')
         | (Inr r, st') \<Rightarrow> resolve_all_loop u types st'))"

definition resolve_all :: "user \<Rightarrow> state \<Rightarrow> (error + unit) \<times> state" where
  "resolve_all u st = resolve_all_loop u CompType_members st"

section \<open>Auxiliary notions for the proofs\<close>

text \<open>
  What a descriptor's quick and full fingerprint are once \<open>compare_content\<close> has filled them
  in, and the verdict of \<open>compare_content\<close>, as functions of the descriptors alone. They
  are used to show that the verdict depends on nothing but the two descriptors.
\<close>

definition quick_of :: "env \<Rightarrow> File \<Rightarrow> error + string option" where
  "quick_of e f =
     (if \<not> truthy (quick_hash f) then
        (case create_quick_hash e f of Inl x \<Rightarrow> Inl x | Inr h \<Rightarrow> Inr (Some h))
      else Inr (quick_hash f))"

definition full_of :: "env \<Rightarrow> File \<Rightarrow> error + string option" where
  "full_of e f =
     (if \<not> truthy (full_hash f) then
        (case create_full_hash e f of Inl x \<Rightarrow> Inl x | Inr h \<Rightarrow> Inr (Some h))
      else Inr (full_hash f))"

definition content_verdict :: "env \<Rightarrow> File \<Rightarrow> File \<Rightarrow> error + bool" where
  "content_verdict e fa fb =
     (if size_f fa \<noteq> size_f fb then Inr False
      else
        (case quick_of e fa of Inl x \<Rightarrow> Inl x | Inr qa \<Rightarrow>
        (case quick_of e fb of Inl x \<Rightarrow> Inl x | Inr qb \<Rightarrow>
         if qa \<noteq> qb then Inr False
         else
        (case full_of e fa of Inl x \<Rightarrow> Inl x | Inr ha \<Rightarrow>
        (case full_of e fb of Inl x \<Rightarrow> Inl x | Inr hb \<Rightarrow> Inr (ha = hb))))))"

text \<open>
  The bookkeeping of the memoisation: a fingerprint of a descriptor has been computed at most
  once so far, and not at all while its field is still false.
\<close>

definition memo_ok :: "(ref \<Rightarrow> File) \<Rightarrow> hash_event list \<Rightarrow> bool" where
  "memo_ok h l =
     (\<forall>r. count_list l (QuickHashed r) \<le> (if truthy (quick_hash (h r)) then 1 else 0)
        \<and> count_list l (FullHashed r) \<le> (if truthy (full_hash (h r)) then 1 else 0))"





text \<open>A file is a member of some group of a bucket other than \<open>UNIQUE\<close>.\<close>

definition in_other_bucket :: "ref \<Rightarrow> (CompType \<Rightarrow> ComparisonIndex) \<Rightarrow> bool" where
  "in_other_bucket f cmp = (\<exists>t. t \<noteq> UNIQUE \<and> (\<exists>g \<in> snd ` set (cmp t). f \<in> set g))"

section \<open>Example runs\<close>

text \<open>
  A small tree under the root \<open>r\<close>, used to run the definitions: \<open>x/a\<close> and \<open>y/a\<close> have the
  same name and the same two bytes, \<open>z/b\<close> and \<open>z/e\<close> have the same size and other
  bytes, \<open>x/d\<close> is one byte longer, and \<open>z/c\<close> cannot be opened. The digests are
  stand-ins that spell out the bytes they are given.
\<close>

definition toy_digest :: "bytes \<Rightarrow> string" where
  "toy_digest bs = CHR ''h'' # map (\<lambda>b. if b = 0 then CHR ''0'' else CHR ''1'') bs"

definition example_env :: env where
  "example_env =
     \<lparr>read_bytes = (\<lambda>p. if p = [''r'', ''x'', ''a''] then Some [0, 1]
                         else if p = [''r'', ''y'', ''a''] then Some [0, 1]
                         else if p = [''r'', ''z'', ''b''] then Some [1, 1]
                         else if p = [''r'', ''z'', ''e''] then Some [1, 0]
                         else None),
      md5_hexdigest = toy_digest, sha256_hexdigest = toy_digest\<rparr>"

definition example_file :: "string \<Rightarrow> string \<Rightarrow> File" where
  "example_file d n =
     \<lparr>name = n, rel_path = [d, n], dir_path = [''r'', d], abs_path = [''r'', d, n],
      size_f = 2, quick_hash = None, full_hash = None\<rparr>"

definition example_world :: world where
  "example_world =
     \<lparr>heap = (\<lambda>r. if r = 0 then example_file ''x'' ''a''
                   else if r = 1 then example_file ''y'' ''a''
                   else if r = 2 then example_file ''z'' ''b''
                   else if r = 4 then (example_file ''x'' ''d'')\<lparr>size_f := 3\<rparr>
                   else if r = 5 then example_file ''z'' ''e''
                   else example_file ''z'' ''c''),
      hash_log = []\<rparr>"

text \<open>The index of the three readable files of the same size, as the traversal builds it.\<close>

definition example_dir :: DirIndex where
  "example_dir =
     \<lparr>file_list = [0, 1, 2],
      name_index = [''a'' \<mapsto> [0, 1], ''b'' \<mapsto> [2]],
      size_index = [2 \<mapsto> [0, 1, 2]]\<rparr>"

text \<open>The pair \<open>x/a\<close>, \<open>y/a\<close> behind the file \<open>z/c\<close> of the same size that cannot be opened.\<close>

definition example_dir_unreadable :: DirIndex where
  "example_dir_unreadable =
     \<lparr>file_list = [3, 0, 1],
      name_index = [''c'' \<mapsto> [3], ''a'' \<mapsto> [0, 1]],
      size_index = [2 \<mapsto> [3, 0, 1]]\<rparr>"

text \<open>Two files of one folder that share their size and nothing else.\<close>

definition example_dir_same_folder :: DirIndex where
  "example_dir_same_folder =
     \<lparr>file_list = [2, 5],
      name_index = [''b'' \<mapsto> [2], ''e'' \<mapsto> [5]],
      size_index = [2 \<mapsto> [2, 5]]\<rparr>"

text \<open>A manager whose buckets hold groups to resolve.\<close>

definition example_resolution :: state where
  "example_resolution =
     (init_manager example_world)
       \<lparr>comparisons :=
          (\<lambda>t. [])
            (MATCH := [(PairKey 0 1, [0, 1]), (PairKey 2 5, [2, 5, 4])],
             CONTENT_NAME_DUP := [(PairKey 0 1, [0, 1])])\<rparr>"

lemmas example_defs =
  example_env_def example_world_def example_file_def toy_digest_def example_dir_def
  example_dir_unreadable_def example_dir_same_folder_def example_resolution_def

lemmas file_defs =
  compare_to_def compare_content_def fill_quick_hash_def fill_full_hash_def
  create_quick_hash_def create_full_hash_def truthy_def parent_def CompType_members_def

section \<open>The full fingerprint\<close>

text \<open>The chunked loop feeds the hasher the whole content, in order.\<close>

lemma hasher_update_loop_all [simp]: "hasher_update_loop rest hasher = hasher @ rest"
proof (induction rest hasher rule: hasher_update_loop.induct)
  case (1 rest hasher)
  show ?case
  proof (cases "take 8192 rest = []")
    case True
    then have "rest = []" by simp
    then show ?thesis by (subst hasher_update_loop.simps) simp
  next
    case False
    have "hasher_update_loop rest hasher
            = hasher_update_loop (drop 8192 rest) (hasher @ take 8192 rest)"
      using False by (subst hasher_update_loop.simps) (simp add: Let_def)
    also have "\<dots> = (hasher @ take 8192 rest) @ drop 8192 rest"
      using False by (intro "1.IH") simp_all
    finally show ?thesis by simp
  qed
qed

lemma create_full_hash_whole_content:
  "create_full_hash e f =
     (case read_bytes e (abs_path f) of
        None \<Rightarrow> Inl IOError
      | Some bs \<Rightarrow> Inr (sha256_hexdigest e bs))"
  by (simp add: create_full_hash_def split: option.splits)

section \<open>The taxonomy is exhaustive and exclusive\<close>

lemma find_traits:
  "find (\<lambda>t. CompType_value t Path = sp \<and> CompType_value t Name = sn
             \<and> CompType_value t Content = sc) CompType_members
   = Some (if sp then (if sn then (if sc then MATCH else PATH_NAME_DUP)
                       else (if sc then CONTENT_PATH_DUP else PATH_DUP))
           else (if sn then (if sc then CONTENT_NAME_DUP else NAME_DUP)
                 else (if sc then CONTENT_DUP else UNIQUE)))"
  by (simp add: CompType_members_def)

lemma traits_unique:
  assumes "CompType_value t Path = CompType_value t' Path"
    and "CompType_value t Name = CompType_value t' Name"
    and "CompType_value t Content = CompType_value t' Content"
  shows "t = t'"
  using assms by (cases t; cases t'; simp)

lemma find_traits_sound:
  assumes "find (\<lambda>t. CompType_value t Path = sp \<and> CompType_value t Name = sn
                    \<and> CompType_value t Content = sc) CompType_members = Some t"
  shows "CompType_value t Path = sp \<and> CompType_value t Name = sn \<and> CompType_value t Content = sc"
  using assms by (auto simp: find_Some_iff)

lemma fill_quick_hash_error: "fill_quick_hash e a w = Inl x \<Longrightarrow> x = IOError"
  by (auto simp: fill_quick_hash_def create_quick_hash_def
      split: if_splits sum.splits option.splits)

lemma fill_full_hash_error: "fill_full_hash e a w = Inl x \<Longrightarrow> x = IOError"
  by (auto simp: fill_full_hash_def create_full_hash_def
      split: if_splits sum.splits option.splits)

lemma compare_content_error:
  "compare_content e self other w = (Inl x, w') \<Longrightarrow> x = IOError"
  unfolding compare_content_def
  by (auto split: if_splits sum.splits dest: fill_quick_hash_error fill_full_hash_error)

text \<open>
  C1. For two distinct descriptors, \<open>compare_to\<close> never reaches its final
  \<^verbatim>\<open>raise ValueError\<close> (no \<open>CompType\<close> found). Whenever the three traits are computed, that
  is whenever \<open>compare_content\<close> returns a verdict, exactly one member of the taxonomy has
  the triple (same path, same name, same content) as its value, and \<open>compare_to\<close> returns
  the outcome of that member, or nothing when the member is \<open>PATH_DUP\<close>.
\<close>

theorem compare_to_exactly_one_category:
  assumes "self \<noteq> other"
  shows "fst (compare_to e self other w) \<noteq> Inl ValueError_no_CompType \<and>
    (\<forall>same_content w'. compare_content e self other w = (Inr same_content, w') \<longrightarrow>
       (\<exists>!t. CompType_value t Path =
                (parent (rel_path (heap w self)) = parent (rel_path (heap w other)))
            \<and> CompType_value t Name = (name (heap w self) = name (heap w other))
            \<and> CompType_value t Content = same_content
            \<and> compare_to e self other w =
                (if t = PATH_DUP then Inr None
                 else Inr (Some \<lparr>fileA = self, fileB = other, comp_type = t\<rparr>), w')))"
proof (intro conjI allI impI)
  obtain r w' where cc: "compare_content e self other w = (r, w')"
    by (cases "compare_content e self other w")
  show "fst (compare_to e self other w) \<noteq> Inl ValueError_no_CompType"
  proof (cases r)
    case (Inl x)
    then have "x = IOError" using cc compare_content_error by blast
    then show ?thesis using assms cc Inl by (simp add: compare_to_def)
  next
    case (Inr b)
    obtain t where
      "find (\<lambda>t. CompType_value t Path =
                   (parent (rel_path (heap w self)) = parent (rel_path (heap w other)))
            \<and> CompType_value t Name = (name (heap w self) = name (heap w other))
            \<and> CompType_value t Content = b) CompType_members = Some t"
      using find_traits by blast
    then show ?thesis using assms cc Inr by (simp add: compare_to_def Let_def)
  qed
next
  fix same_content w'
  assume cc: "compare_content e self other w = (Inr same_content, w')"
  let ?sp = "parent (rel_path (heap w self)) = parent (rel_path (heap w other))"
  let ?sn = "name (heap w self) = name (heap w other)"
  let ?P = "\<lambda>t. CompType_value t Path = ?sp \<and> CompType_value t Name = ?sn
                \<and> CompType_value t Content = same_content"
  obtain t where t: "find ?P CompType_members = Some t"
    using find_traits by blast
  have Pt: "?P t" using find_traits_sound[OF t] .
  have res: "compare_to e self other w =
       (if t = PATH_DUP then Inr None
        else Inr (Some \<lparr>fileA = self, fileB = other, comp_type = t\<rparr>), w')"
    using assms cc t by (simp add: compare_to_def Let_def)
  let ?Q = "\<lambda>t. CompType_value t Path = ?sp \<and> CompType_value t Name = ?sn
                \<and> CompType_value t Content = same_content
                \<and> compare_to e self other w =
                (if t = PATH_DUP then Inr None
                 else Inr (Some \<lparr>fileA = self, fileB = other, comp_type = t\<rparr>), w')"
  have "?Q t" using Pt res by blast
  moreover have "t' = t" if "?Q t'" for t'
    using that Pt by (intro traits_unique) simp_all
  ultimately show "\<exists>!t. ?Q t" by blast
qed

lemma example_content_0_1:
  "compare_content example_env 0 1 example_world =
     (Inr True, snd (compare_content example_env 0 1 example_world))"
  by (rule prod_eqI) (simp_all add: file_defs example_defs)

theorem compare_to_exactly_one_category_witness:
  "(0::nat) \<noteq> 1 \<and>
   fst (compare_to example_env 0 1 example_world) \<noteq> Inl ValueError_no_CompType \<and>
   (\<exists>!t. CompType_value t Path = False \<and> CompType_value t Name = True
        \<and> CompType_value t Content = True
        \<and> compare_to example_env 0 1 example_world =
            (if t = PATH_DUP then Inr None
             else Inr (Some \<lparr>fileA = 0, fileB = 1, comp_type = t\<rparr>),
             snd (compare_content example_env 0 1 example_world)))"
proof -
  have ne: "(0::nat) \<noteq> 1" by simp
  have traits: "(parent (rel_path (heap example_world 0)) = parent (rel_path (heap example_world 1))) = False"
    "(name (heap example_world 0) = name (heap example_world 1)) = True"
    by (simp_all add: example_defs parent_def)
  from compare_to_exactly_one_category[OF ne, of example_env example_world]
  show ?thesis
    using example_content_0_1 ne unfolding traits by blast
qed

section \<open>The staged content comparison\<close>

lemma fill_quick_hash_frame:
  assumes "fill_quick_hash e a w = Inr w1"
  shows "full_hash (heap w1 r) = full_hash (heap w r)"
    and "size_f (heap w1 r) = size_f (heap w r)"
    and "name (heap w1 r) = name (heap w r)"
    and "rel_path (heap w1 r) = rel_path (heap w r)"
    and "abs_path (heap w1 r) = abs_path (heap w r)"
    and "count_list (hash_log w1) (FullHashed r) = count_list (hash_log w) (FullHashed r)"
    and "quick_hash (heap w1 a) \<noteq> None"
    and "r \<noteq> a \<Longrightarrow> heap w1 r = heap w r"
  using assms
  by (auto simp: fill_quick_hash_def truthy_def split: if_splits sum.splits option.splits)

lemma fill_full_hash_frame:
  assumes "fill_full_hash e a w = Inr w1"
  shows "quick_hash (heap w1 r) = quick_hash (heap w r)"
    and "size_f (heap w1 r) = size_f (heap w r)"
    and "name (heap w1 r) = name (heap w r)"
    and "rel_path (heap w1 r) = rel_path (heap w r)"
    and "abs_path (heap w1 r) = abs_path (heap w r)"
    and "count_list (hash_log w1) (QuickHashed r) = count_list (hash_log w) (QuickHashed r)"
    and "full_hash (heap w1 a) \<noteq> None"
    and "r \<noteq> a \<Longrightarrow> heap w1 r = heap w r"
  using assms
  by (auto simp: fill_full_hash_def truthy_def split: if_splits sum.splits option.splits)


lemma fill_quick_hash_keeps_Some:
  assumes "fill_quick_hash e a w = Inr w1" "quick_hash (heap w r) \<noteq> None"
  shows "quick_hash (heap w1 r) \<noteq> None"
  using assms
  by (auto simp: fill_quick_hash_def truthy_def split: if_splits sum.splits option.splits)








section \<open>Classification is symmetric\<close>

lemma quick_of_error: "quick_of e f = Inl x \<Longrightarrow> x = IOError"
  by (auto simp: quick_of_def create_quick_hash_def split: if_splits sum.splits option.splits)

lemma full_of_error: "full_of e f = Inl x \<Longrightarrow> x = IOError"
  by (auto simp: full_of_def create_full_hash_def split: if_splits sum.splits option.splits)

lemma quick_of_full_update [simp]: "quick_of e (f\<lparr>full_hash := h\<rparr>) = quick_of e f"
  by (simp add: quick_of_def create_quick_hash_def)

lemma full_of_quick_update [simp]: "full_of e (f\<lparr>quick_hash := h\<rparr>) = full_of e f"
  by (simp add: full_of_def create_full_hash_def)

lemma fill_quick_hash_Inl:
  "quick_of e (heap w a) = Inl x \<Longrightarrow> fill_quick_hash e a w = Inl x"
  by (auto simp: quick_of_def fill_quick_hash_def split: if_splits sum.splits)

lemma fill_quick_hash_InrE:
  assumes "quick_of e (heap w a) = Inr q"
  obtains w1 where "fill_quick_hash e a w = Inr w1"
    and "heap w1 a = (heap w a)\<lparr>quick_hash := q\<rparr>"
    and "\<And>r. r \<noteq> a \<Longrightarrow> heap w1 r = heap w r"
  using assms
  by (auto simp: quick_of_def fill_quick_hash_def split: if_splits sum.splits)

lemma fill_full_hash_Inl:
  "full_of e (heap w a) = Inl x \<Longrightarrow> fill_full_hash e a w = Inl x"
  by (auto simp: full_of_def fill_full_hash_def split: if_splits sum.splits)

lemma fill_full_hash_InrE:
  assumes "full_of e (heap w a) = Inr q"
  obtains w1 where "fill_full_hash e a w = Inr w1"
    and "heap w1 a = (heap w a)\<lparr>full_hash := q\<rparr>"
    and "\<And>r. r \<noteq> a \<Longrightarrow> heap w1 r = heap w r"
  using assms
  by (auto simp: full_of_def fill_full_hash_def split: if_splits sum.splits)


lemma compare_content_verdict:
  assumes ab: "a \<noteq> b"
  shows "fst (compare_content e a b w) = content_verdict e (heap w a) (heap w b)"
proof (cases "size_f (heap w a) \<noteq> size_f (heap w b)")
  case True
  then show ?thesis by (simp add: compare_content_def content_verdict_def)
next
  case False
  then have sz: "size_f (heap w a) = size_f (heap w b)" by simp
  show ?thesis
  proof (cases "quick_of e (heap w a)")
    case (Inl x)
    then show ?thesis using sz
      by (simp add: compare_content_def content_verdict_def fill_quick_hash_Inl)
  next
    case qa: (Inr qa)
    obtain w1 where w1: "fill_quick_hash e a w = Inr w1"
      and a1: "heap w1 a = (heap w a)\<lparr>quick_hash := qa\<rparr>"
      and o1: "\<And>r. r \<noteq> a \<Longrightarrow> heap w1 r = heap w r"
      by (rule fill_quick_hash_InrE[OF qa]) (rule that)
    have b1: "heap w1 b = heap w b" using ab o1 by simp
    show ?thesis
    proof (cases "quick_of e (heap w b)")
      case (Inl x)
      then have "fill_quick_hash e b w1 = Inl x"
        using b1 by (simp add: fill_quick_hash_Inl)
      then show ?thesis using sz qa w1 Inl
        by (simp add: compare_content_def content_verdict_def)
    next
      case qb: (Inr qb)
      have "quick_of e (heap w1 b) = Inr qb" using qb b1 by simp
      then obtain w2 where w2: "fill_quick_hash e b w1 = Inr w2"
        and b2': "heap w2 b = (heap w1 b)\<lparr>quick_hash := qb\<rparr>"
        and o2: "\<And>r. r \<noteq> b \<Longrightarrow> heap w2 r = heap w1 r"
        by (rule fill_quick_hash_InrE) (rule that)
      have a2: "heap w2 a = (heap w a)\<lparr>quick_hash := qa\<rparr>"
        using ab o2[of a] a1 by simp
      have b2: "heap w2 b = (heap w b)\<lparr>quick_hash := qb\<rparr>"
        using b2' b1 by simp
      show ?thesis
      proof (cases "qa = qb")
        case False
        then show ?thesis using sz qa qb w1 w2 a2 b2
          by (simp add: compare_content_def content_verdict_def)
      next
        case qeq: True
        show ?thesis
        proof (cases "full_of e (heap w a)")
          case (Inl x)
          then have "fill_full_hash e a w2 = Inl x"
            using a2 by (simp add: fill_full_hash_Inl)
          then show ?thesis using sz qa qb w1 w2 a2 b2 qeq Inl
            by (simp add: compare_content_def content_verdict_def)
        next
          case ha: (Inr ha)
          have "full_of e (heap w2 a) = Inr ha" using ha a2 by simp
          then obtain w3 where w3: "fill_full_hash e a w2 = Inr w3"
            and a3: "heap w3 a = (heap w2 a)\<lparr>full_hash := ha\<rparr>"
            and o3: "\<And>r. r \<noteq> a \<Longrightarrow> heap w3 r = heap w2 r"
            by (rule fill_full_hash_InrE) (rule that)
          have b3: "heap w3 b = (heap w b)\<lparr>quick_hash := qb\<rparr>"
            using ab o3[of b] b2 by simp
          show ?thesis
          proof (cases "full_of e (heap w b)")
            case (Inl x)
            then have "fill_full_hash e b w3 = Inl x"
              using b3 by (simp add: fill_full_hash_Inl)
            then show ?thesis using sz qa qb w1 w2 a2 b2 qeq ha w3 Inl
              by (simp add: compare_content_def content_verdict_def)
          next
            case hb: (Inr hb)
            have "full_of e (heap w3 b) = Inr hb" using hb b3 by simp
            then obtain w4 where w4: "fill_full_hash e b w3 = Inr w4"
              and b4: "heap w4 b = (heap w3 b)\<lparr>full_hash := hb\<rparr>"
              and o4: "\<And>r. r \<noteq> b \<Longrightarrow> heap w4 r = heap w3 r"
              by (rule fill_full_hash_InrE) (rule that)
            have h4: "full_hash (heap w4 a) = ha" "full_hash (heap w4 b) = hb"
              using ab o4[of a] a3 b4 by simp_all
            show ?thesis using sz qa qb w1 w2 a2 b2 qeq ha w3 hb w4 h4
              by (simp add: compare_content_def content_verdict_def)
          qed
        qed
      qed
    qed
  qed
qed

lemma content_verdict_sym: "content_verdict e fa fb = content_verdict e fb fa"
  unfolding content_verdict_def
  by (auto split: sum.splits dest: quick_of_error full_of_error)


text \<open>
  C9. Classification is symmetric: for distinct descriptors, \<open>compare_to\<close> called in either
  order from the same world raises the same exception, or returns nothing both times, or
  returns outcomes of the same category.
\<close>

theorem compare_to_symmetric:
  assumes "a \<noteq> b"
  shows "map_sum id (map_option comp_type) (fst (compare_to e a b w))
       = map_sum id (map_option comp_type) (fst (compare_to e b a w))"
proof -
  obtain r w1 where ab: "compare_content e a b w = (r, w1)"
    by (cases "compare_content e a b w")
  obtain r' w2 where ba: "compare_content e b a w = (r', w2)"
    by (cases "compare_content e b a w")
  have "fst (compare_content e a b w) = fst (compare_content e b a w)"
    using assms compare_content_verdict[of a b e w] compare_content_verdict[of b a e w]
      content_verdict_sym[of e "heap w a" "heap w b"] by simp
  then have rr: "r' = r" using ab ba by simp
  have sp: "(parent (rel_path (heap w b)) = parent (rel_path (heap w a)))
          = (parent (rel_path (heap w a)) = parent (rel_path (heap w b)))"
    and sn: "(name (heap w b) = name (heap w a)) = (name (heap w a) = name (heap w b))"
    by auto
  show ?thesis
  proof (cases r)
    case (Inl x)
    then show ?thesis using assms ab ba rr by (simp add: compare_to_def)
  next
    case (Inr sc)
    then show ?thesis using assms ab ba rr
      by (simp add: compare_to_def Let_def find_traits sp sn)
  qed
qed

theorem compare_to_symmetric_witness:
  "(0::nat) \<noteq> 1 \<and>
   map_sum id (map_option comp_type) (fst (compare_to example_env 1 0 example_world))
     = Inr (Some CONTENT_NAME_DUP)"
proof -
  have ne: "(0::nat) \<noteq> 1" by simp
  have "map_sum id (map_option comp_type) (fst (compare_to example_env 0 1 example_world))
     = Inr (Some CONTENT_NAME_DUP)"
    by (simp add: file_defs example_defs)
  then show ?thesis
    using compare_to_symmetric[OF ne, of example_env example_world] by simp
qed

section \<open>Fingerprints are memoised\<close>

text \<open>Whatever the two fills preserve, a whole run of \<open>add_dir_index\<close> preserves.\<close>

lemma compare_content_preserves:
  fixes w :: "'a world_scheme"
  assumes "P w"
    and q: "\<And>r (v :: 'a world_scheme) v1. P v \<Longrightarrow> fill_quick_hash e r v = Inr v1
              \<Longrightarrow> P v1"
    and f: "\<And>r (v :: 'a world_scheme) v1. P v \<Longrightarrow> fill_full_hash e r v = Inr v1
              \<Longrightarrow> P v1"
  shows "P (snd (compare_content e a b w))"
proof (cases "fill_quick_hash e a w")
  case (Inl x)
  then show ?thesis using assms(1) by (simp add: compare_content_def)
next
  case w1: (Inr w1)
  have p1: "P w1" using q[OF assms(1) w1] .
  show ?thesis
  proof (cases "fill_quick_hash e b w1")
    case (Inl x)
    then show ?thesis using assms(1) w1 p1 by (simp add: compare_content_def)
  next
    case w2: (Inr w2)
    have p2: "P w2" using q[OF p1 w2] .
    show ?thesis
    proof (cases "fill_full_hash e a w2")
      case (Inl x)
      then show ?thesis using assms(1) w1 w2 p2 by (simp add: compare_content_def)
    next
      case w3: (Inr w3)
      have p3: "P w3" using f[OF p2 w3] .
      show ?thesis
      proof (cases "fill_full_hash e b w3")
        case (Inl x)
        then show ?thesis using assms(1) w1 w2 w3 p2 p3 by (simp add: compare_content_def)
      next
        case w4: (Inr w4)
        have p4: "P w4" using f[OF p3 w4] .
        show ?thesis using assms(1) w1 w2 w3 w4 p2 p4 by (simp add: compare_content_def)
      qed
    qed
  qed
qed

lemma compare_to_state:
  "snd (compare_to e a b w) = (if a = b then w else snd (compare_content e a b w))"
  by (cases "compare_content e a b w")
     (auto simp: compare_to_def Let_def find_traits split: sum.splits)

lemma compare_to_preserves:
  fixes w :: "'a world_scheme"
  assumes "P w"
    and q: "\<And>r (v :: 'a world_scheme) v1. P v \<Longrightarrow> fill_quick_hash e r v = Inr v1
              \<Longrightarrow> P v1"
    and f: "\<And>r (v :: 'a world_scheme) v1. P v \<Longrightarrow> fill_full_hash e r v = Inr v1
              \<Longrightarrow> P v1"
  shows "P (snd (compare_to e a b w))"
proof -
  have "P (snd (compare_content e a b w))"
    using assms(1) q f by (rule compare_content_preserves)
  then show ?thesis using assms(1) by (simp add: compare_to_state)
qed


lemma compare_file_against_group_preserves:
  assumes "P st"
    and q: "\<And>r (v :: state) v1. P v \<Longrightarrow> fill_quick_hash e r v = Inr v1
              \<Longrightarrow> P v1"
    and f: "\<And>r (v :: state) v1. P v \<Longrightarrow> fill_full_hash e r v = Inr v1
              \<Longrightarrow> P v1"
  shows "P (snd (compare_file_against_group e file others found st))"
  using assms(1)
proof (induction others arbitrary: found st)
  case Nil
  then show ?case by simp
next
  case (Cons other_file others)
  have step: "P (snd (compare_to e file other_file st))"
    using Cons.prems q f by (rule compare_to_preserves)
  obtain r st' where ct: "compare_to e file other_file st = (r, st')"
    by (cases "compare_to e file other_file st")
  with step have p': "P st'" by simp
  show ?case
  proof (cases r)
    case (Inl x)
    then show ?thesis using ct p' Cons.prems Cons.IH[OF Cons.prems] by simp
  next
    case (Inr c)
    then show ?thesis
      using ct Cons.IH[OF p'] Cons.IH[OF Cons.prems] by (cases c) simp_all
  qed
qed

lemma compare_content_invariant:
  fixes w :: "'a world_scheme"
  assumes "P (heap w) (hash_log w)"
    and "\<And>r (v :: 'a world_scheme) v1. P (heap v) (hash_log v) \<Longrightarrow> fill_quick_hash e r v = Inr v1
              \<Longrightarrow> P (heap v1) (hash_log v1)"
    and "\<And>r (v :: 'a world_scheme) v1. P (heap v) (hash_log v) \<Longrightarrow> fill_full_hash e r v = Inr v1
              \<Longrightarrow> P (heap v1) (hash_log v1)"
  shows "P (heap (snd (compare_content e a b w))) (hash_log (snd (compare_content e a b w)))"
  using assms by (rule compare_content_preserves[where P = "\<lambda>v. P (heap v) (hash_log v)"])

lemma compare_file_against_group_invariant:
  assumes "P (heap st) (hash_log st)"
    and "\<And>r (v :: state) v1. P (heap v) (hash_log v) \<Longrightarrow> fill_quick_hash e r v = Inr v1
              \<Longrightarrow> P (heap v1) (hash_log v1)"
    and "\<And>r (v :: state) v1. P (heap v) (hash_log v) \<Longrightarrow> fill_full_hash e r v = Inr v1
              \<Longrightarrow> P (heap v1) (hash_log v1)"
  shows "P (heap (snd (compare_file_against_group e file others found st)))
           (hash_log (snd (compare_file_against_group e file others found st)))"
  using assms
  by (rule compare_file_against_group_preserves[where P = "\<lambda>v. P (heap v) (hash_log v)"])

lemma add_comparisons_world:
  "heap (snd (add_comparisons cs fl st)) = heap st
   \<and> hash_log (snd (add_comparisons cs fl st)) = hash_log st"
  by (induction cs arbitrary: fl st) (simp_all add: Let_def)

lemma analyze_file_invariant:
  assumes "P (heap st) (hash_log st)"
    and q: "\<And>r (v :: state) v1. P (heap v) (hash_log v) \<Longrightarrow> fill_quick_hash e r v = Inr v1
              \<Longrightarrow> P (heap v1) (hash_log v1)"
    and f: "\<And>r (v :: state) v1. P (heap v) (hash_log v) \<Longrightarrow> fill_full_hash e r v = Inr v1
              \<Longrightarrow> P (heap v1) (hash_log v1)"
  shows "P (heap (snd (analyze_file e d file st))) (hash_log (snd (analyze_file e d file st)))"
proof (cases "name_index d (name (heap st file))")
  case None
  then show ?thesis using assms(1) by (simp add: analyze_file_def)
next
  case (Some same_name_files)
  obtain r1 st1 where g1: "compare_file_against_group e file same_name_files [] st = (r1, st1)"
    by (cases "compare_file_against_group e file same_name_files [] st")
  have "P (heap (snd (compare_file_against_group e file same_name_files [] st)))
          (hash_log (snd (compare_file_against_group e file same_name_files [] st)))"
    using assms(1) q f by (rule compare_file_against_group_invariant)
  then have p1: "P (heap st1) (hash_log st1)" using g1 by simp
  show ?thesis
  proof (cases r1)
    case (Inl x)
    then show ?thesis using Some g1 p1 by (simp add: analyze_file_def)
  next
    case (Inr name_comparisons)
    obtain fn st2 where a1: "add_comparisons name_comparisons False st1 = (fn, st2)"
      by (cases "add_comparisons name_comparisons False st1")
    have w2: "heap st2 = heap st1" "hash_log st2 = hash_log st1"
      using add_comparisons_world[of name_comparisons False st1] a1 by simp_all
    have p2: "P (heap st2) (hash_log st2)" using p1 w2 by simp
    show ?thesis
    proof (cases "size_index d (size_f (heap st2 file))")
      case None
      then show ?thesis using Some g1 Inr a1 p2 by (simp add: analyze_file_def)
    next
      case ss: (Some same_size_files)
      obtain r3 st3 where g3: "compare_file_against_group e file same_size_files [] st2 = (r3, st3)"
        by (cases "compare_file_against_group e file same_size_files [] st2")
      have "P (heap (snd (compare_file_against_group e file same_size_files [] st2)))
          (hash_log (snd (compare_file_against_group e file same_size_files [] st2)))"
        using p2 q f by (rule compare_file_against_group_invariant)
      then have p3: "P (heap st3) (hash_log st3)" using g3 by simp
      show ?thesis
      proof (cases r3)
        case (Inl x)
        then show ?thesis using Some g1 Inr a1 ss g3 p3 by (simp add: analyze_file_def)
      next
        case r3: (Inr size_comparisons)
        obtain fs st4 where a3: "add_comparisons size_comparisons False st3 = (fs, st4)"
          by (cases "add_comparisons size_comparisons False st3")
        have w4: "heap st4 = heap st3" "hash_log st4 = hash_log st3"
          using add_comparisons_world[of size_comparisons False st3] a3 by simp_all
        show ?thesis using Some g1 Inr a1 ss g3 r3 a3 p3 w4
          by (simp add: analyze_file_def)
      qed
    qed
  qed
qed

lemma add_dir_index_invariant:
  assumes "P (heap st) (hash_log st)"
    and q: "\<And>r (v :: state) v1. P (heap v) (hash_log v) \<Longrightarrow> fill_quick_hash e r v = Inr v1
              \<Longrightarrow> P (heap v1) (hash_log v1)"
    and f: "\<And>r (v :: state) v1. P (heap v) (hash_log v) \<Longrightarrow> fill_full_hash e r v = Inr v1
              \<Longrightarrow> P (heap v1) (hash_log v1)"
  shows "P (heap (snd (add_dir_index e d st))) (hash_log (snd (add_dir_index e d st)))"
proof -
  have "P (heap (snd (add_dir_index_loop e d files st)))
          (hash_log (snd (add_dir_index_loop e d files st)))" for files
    using assms(1)
  proof (induction files arbitrary: st)
    case Nil
    then show ?case by simp
  next
    case (Cons x files)
    have step: "P (heap (snd (analyze_file e d x st))) (hash_log (snd (analyze_file e d x st)))"
      using Cons.prems q f by (rule analyze_file_invariant)
    obtain r st' where af: "analyze_file e d x st = (r, st')"
      by (cases "analyze_file e d x st")
    with step have p': "P (heap st') (hash_log st')" by simp
    show ?case using af p' Cons.IH[OF p'] by (cases r) simp_all
  qed
  then show ?thesis by (simp add: add_dir_index_def)
qed

text \<open>The bookkeeping \<open>memo_ok\<close> is kept by the two fills.\<close>

lemma memo_okD:
  assumes "memo_ok h l"
  shows "count_list l (QuickHashed r) \<le> (if truthy (quick_hash (h r)) then 1 else 0)"
    and "count_list l (FullHashed r) \<le> (if truthy (full_hash (h r)) then 1 else 0)"
  using assms by (simp_all add: memo_ok_def)

lemma create_quick_hash_nonempty:
  assumes "\<And>bs. md5_hexdigest e bs \<noteq> []" and "create_quick_hash e f = Inr h"
  shows "truthy (Some h)"
  using assms by (auto simp: create_quick_hash_def truthy_def split: option.splits)

lemma create_full_hash_nonempty:
  assumes "\<And>bs. sha256_hexdigest e bs \<noteq> []" and "create_full_hash e f = Inr h"
  shows "truthy (Some h)"
  using assms by (auto simp: create_full_hash_def truthy_def split: option.splits)

lemma fill_quick_hash_cases:
  assumes "fill_quick_hash e r v = Inr v1"
  obtains (kept) "truthy (quick_hash (heap v r))" "v1 = v"
  | (computed) h where "\<not> truthy (quick_hash (heap v r))"
      "create_quick_hash e (heap v r) = Inr h"
      "heap v1 = (heap v)(r := (heap v r)\<lparr>quick_hash := Some h\<rparr>)"
      "hash_log v1 = hash_log v @ [QuickHashed r]"
proof (cases "truthy (quick_hash (heap v r))")
  case True
  then have "v1 = v" using assms by (simp add: fill_quick_hash_def)
  then show ?thesis using True kept by blast
next
  case False
  then obtain h where h: "create_quick_hash e (heap v r) = Inr h"
    and v1: "v1 = v\<lparr>heap := (heap v)(r := (heap v r)\<lparr>quick_hash := Some h\<rparr>),
                    hash_log := hash_log v @ [QuickHashed r]\<rparr>"
    using assms by (cases "create_quick_hash e (heap v r)") (simp_all add: fill_quick_hash_def)
  show ?thesis using False h v1 computed[of h] by simp
qed

lemma fill_full_hash_cases:
  assumes "fill_full_hash e r v = Inr v1"
  obtains (kept) "truthy (full_hash (heap v r))" "v1 = v"
  | (computed) h where "\<not> truthy (full_hash (heap v r))"
      "create_full_hash e (heap v r) = Inr h"
      "heap v1 = (heap v)(r := (heap v r)\<lparr>full_hash := Some h\<rparr>)"
      "hash_log v1 = hash_log v @ [FullHashed r]"
proof (cases "truthy (full_hash (heap v r))")
  case True
  then have "v1 = v" using assms by (simp add: fill_full_hash_def)
  then show ?thesis using True kept by blast
next
  case False
  then obtain h where h: "create_full_hash e (heap v r) = Inr h"
    and v1: "v1 = v\<lparr>heap := (heap v)(r := (heap v r)\<lparr>full_hash := Some h\<rparr>),
                    hash_log := hash_log v @ [FullHashed r]\<rparr>"
    using assms by (cases "create_full_hash e (heap v r)") (simp_all add: fill_full_hash_def)
  show ?thesis using False h v1 computed[of h] by simp
qed


lemma fill_quick_hash_memo:
  assumes md5: "\<And>bs. md5_hexdigest e bs \<noteq> []"
    and ok: "memo_ok (heap v) (hash_log v)" and fill: "fill_quick_hash e r v = Inr v1"
  shows "memo_ok (heap v1) (hash_log v1)"
  using fill
proof (cases rule: fill_quick_hash_cases)
  case kept
  then show ?thesis using ok by simp
next
  case (computed h)
  have c0: "count_list (hash_log v) (QuickHashed r) = 0"
    using memo_okD(1)[OF ok, of r] computed(1) by simp
  have th: "truthy (Some h)" using md5 computed(2) by (rule create_quick_hash_nonempty)
  show ?thesis
    unfolding memo_ok_def
  proof (intro allI conjI)
    fix x
    show "count_list (hash_log v1) (QuickHashed x)
            \<le> (if truthy (quick_hash (heap v1 x)) then 1 else 0)"
    proof (cases "x = r")
      case True
      then show ?thesis using computed(3,4) c0 th by simp
    next
      case False
      then show ?thesis using computed(3,4) memo_okD(1)[OF ok, of x] by simp
    qed
    show "count_list (hash_log v1) (FullHashed x)
            \<le> (if truthy (full_hash (heap v1 x)) then 1 else 0)"
    proof (cases "x = r")
      case True
      then show ?thesis using computed(3,4) memo_okD(2)[OF ok, of r] by simp
    next
      case False
      then show ?thesis using computed(3,4) memo_okD(2)[OF ok, of x] by simp
    qed
  qed
qed

lemma fill_full_hash_memo:
  assumes sha: "\<And>bs. sha256_hexdigest e bs \<noteq> []"
    and ok: "memo_ok (heap v) (hash_log v)" and fill: "fill_full_hash e r v = Inr v1"
  shows "memo_ok (heap v1) (hash_log v1)"
  using fill
proof (cases rule: fill_full_hash_cases)
  case kept
  then show ?thesis using ok by simp
next
  case (computed h)
  have c0: "count_list (hash_log v) (FullHashed r) = 0"
    using memo_okD(2)[OF ok, of r] computed(1) by simp
  have th: "truthy (Some h)" using sha computed(2) by (rule create_full_hash_nonempty)
  show ?thesis
    unfolding memo_ok_def
  proof (intro allI conjI)
    fix x
    show "count_list (hash_log v1) (FullHashed x)
            \<le> (if truthy (full_hash (heap v1 x)) then 1 else 0)"
    proof (cases "x = r")
      case True
      then show ?thesis using computed(3,4) c0 th by simp
    next
      case False
      then show ?thesis using computed(3,4) memo_okD(2)[OF ok, of x] by simp
    qed
    show "count_list (hash_log v1) (QuickHashed x)
            \<le> (if truthy (quick_hash (heap v1 x)) then 1 else 0)"
    proof (cases "x = r")
      case True
      then show ?thesis using computed(3,4) memo_okD(1)[OF ok, of r] by simp
    next
      case False
      then show ?thesis using computed(3,4) memo_okD(1)[OF ok, of x] by simp
    qed
  qed
qed

lemma fill_quick_hash_stable:
  assumes "fill_quick_hash e r v = Inr v1"
  shows "truthy (quick_hash (heap v x)) \<Longrightarrow> quick_hash (heap v1 x) = quick_hash (heap v x)"
    and "full_hash (heap v1 x) = full_hash (heap v x)"
proof -
  show "full_hash (heap v1 x) = full_hash (heap v x)"
    using assms by (rule fill_quick_hash_frame(1))
  assume t: "truthy (quick_hash (heap v x))"
  from assms show "quick_hash (heap v1 x) = quick_hash (heap v x)"
  proof (cases rule: fill_quick_hash_cases)
    case kept
    then show ?thesis by simp
  next
    case (computed h)
    then have "x \<noteq> r" using t by auto
    then show ?thesis using computed(3) by simp
  qed
qed

lemma fill_full_hash_stable:
  assumes "fill_full_hash e r v = Inr v1"
  shows "truthy (full_hash (heap v x)) \<Longrightarrow> full_hash (heap v1 x) = full_hash (heap v x)"
    and "quick_hash (heap v1 x) = quick_hash (heap v x)"
proof -
  show "quick_hash (heap v1 x) = quick_hash (heap v x)"
    using assms by (rule fill_full_hash_frame(1))
  assume t: "truthy (full_hash (heap v x))"
  from assms show "full_hash (heap v1 x) = full_hash (heap v x)"
  proof (cases rule: fill_full_hash_cases)
    case kept
    then show ?thesis by simp
  next
    case (computed h)
    then have "x \<noteq> r" using t by auto
    then show ?thesis using computed(3) by simp
  qed
qed

text \<open>The invariant of a run that starts in the world \<open>w0\<close>.\<close>

lemma memo_invariant_quick:
  assumes md5: "\<And>bs. md5_hexdigest e bs \<noteq> []"
    and inv: "memo_ok (heap v) (hash_log v)
      \<and> (\<forall>x. truthy (quick_hash (h0 x)) \<longrightarrow> quick_hash (heap v x) = quick_hash (h0 x))
      \<and> (\<forall>x. truthy (full_hash (h0 x)) \<longrightarrow> full_hash (heap v x) = full_hash (h0 x))"
    and fill: "fill_quick_hash e r v = Inr v1"
  shows "memo_ok (heap v1) (hash_log v1)
      \<and> (\<forall>x. truthy (quick_hash (h0 x)) \<longrightarrow> quick_hash (heap v1 x) = quick_hash (h0 x))
      \<and> (\<forall>x. truthy (full_hash (h0 x)) \<longrightarrow> full_hash (heap v1 x) = full_hash (h0 x))"
proof (intro conjI allI impI)
  have "memo_ok (heap v) (hash_log v)" using inv by (rule conjunct1)
  with md5 show "memo_ok (heap v1) (hash_log v1)"
    using fill by (rule fill_quick_hash_memo)
next
  fix x assume t: "truthy (quick_hash (h0 x))"
  then have "quick_hash (heap v x) = quick_hash (h0 x)" using inv by blast
  then show "quick_hash (heap v1 x) = quick_hash (h0 x)"
    using t fill_quick_hash_stable(1)[OF fill, of x] by simp
next
  fix x assume "truthy (full_hash (h0 x))"
  then show "full_hash (heap v1 x) = full_hash (h0 x)"
    using inv fill_quick_hash_stable(2)[OF fill, of x] by simp
qed

lemma memo_invariant_full:
  assumes sha: "\<And>bs. sha256_hexdigest e bs \<noteq> []"
    and inv: "memo_ok (heap v) (hash_log v)
      \<and> (\<forall>x. truthy (quick_hash (h0 x)) \<longrightarrow> quick_hash (heap v x) = quick_hash (h0 x))
      \<and> (\<forall>x. truthy (full_hash (h0 x)) \<longrightarrow> full_hash (heap v x) = full_hash (h0 x))"
    and fill: "fill_full_hash e r v = Inr v1"
  shows "memo_ok (heap v1) (hash_log v1)
      \<and> (\<forall>x. truthy (quick_hash (h0 x)) \<longrightarrow> quick_hash (heap v1 x) = quick_hash (h0 x))
      \<and> (\<forall>x. truthy (full_hash (h0 x)) \<longrightarrow> full_hash (heap v1 x) = full_hash (h0 x))"
proof (intro conjI allI impI)
  have "memo_ok (heap v) (hash_log v)" using inv by (rule conjunct1)
  with sha show "memo_ok (heap v1) (hash_log v1)"
    using fill by (rule fill_full_hash_memo)
next
  fix x assume "truthy (quick_hash (h0 x))"
  then show "quick_hash (heap v1 x) = quick_hash (h0 x)"
    using inv fill_full_hash_stable(2)[OF fill, of x] by simp
next
  fix x assume t: "truthy (full_hash (h0 x))"
  then have "full_hash (heap v x) = full_hash (h0 x)" using inv by blast
  then show "full_hash (heap v1 x) = full_hash (h0 x)"
    using t fill_full_hash_stable(1)[OF fill, of x] by simp
qed

lemma compare_content_full_after_quick:
  assumes "count_list (hash_log (snd (compare_content e a b w))) (FullHashed r)
             \<noteq> count_list (hash_log w) (FullHashed r)"
  shows "size_f (heap w a) = size_f (heap w b)
       \<and> quick_hash (heap (snd (compare_content e a b w)) a) \<noteq> None
       \<and> quick_hash (heap (snd (compare_content e a b w)) a)
           = quick_hash (heap (snd (compare_content e a b w)) b)"
proof -
  have sz: "size_f (heap w a) = size_f (heap w b)"
  proof (rule ccontr)
    assume "size_f (heap w a) \<noteq> size_f (heap w b)"
    then have "snd (compare_content e a b w) = w" by (simp add: compare_content_def)
    then show False using assms by simp
  qed
  show ?thesis
  proof (cases "fill_quick_hash e a w")
    case (Inl x)
    then show ?thesis using assms sz by (simp add: compare_content_def)
  next
    case w1: (Inr w1)
    note c1 = fill_quick_hash_frame(6)[OF w1, of r]
    show ?thesis
    proof (cases "fill_quick_hash e b w1")
      case (Inl x)
      then show ?thesis using assms sz w1 c1 by (simp add: compare_content_def)
    next
      case w2: (Inr w2)
      note c2 = fill_quick_hash_frame(6)[OF w2, of r]
      have q2: "quick_hash (heap w2 a) \<noteq> None"
        using fill_quick_hash_keeps_Some[OF w2 fill_quick_hash_frame(7)[OF w1]] .
      show ?thesis
      proof (cases "quick_hash (heap w2 a) = quick_hash (heap w2 b)")
        case False
        then show ?thesis using assms sz w1 w2 c1 c2 by (simp add: compare_content_def)
      next
        case qeq: True
        show ?thesis
        proof (cases "fill_full_hash e a w2")
          case (Inl x)
          then show ?thesis using assms sz w1 w2 c1 c2 qeq by (simp add: compare_content_def)
        next
          case w3: (Inr w3)
          note k3 = fill_full_hash_frame(1)[OF w3]
          show ?thesis
          proof (cases "fill_full_hash e b w3")
            case (Inl x)
            then show ?thesis using sz w1 w2 w3 qeq q2 k3
              by (simp add: compare_content_def)
          next
            case w4: (Inr w4)
            note k4 = fill_full_hash_frame(1)[OF w4]
            show ?thesis using sz w1 w2 w3 w4 qeq q2 k3 k4
              by (simp add: compare_content_def)
          qed
        qed
      qed
    qed
  qed
qed


text \<open>
  C8. Provided the digests of \<^verbatim>\<open>hashlib\<close> are never the empty string, the fingerprints are
  memoised. Over a run of \<open>add_dir_index\<close> that starts with consistent bookkeeping (in
  particular, with nothing computed yet), the quick and the full fingerprint of every
  descriptor are computed at most once, and a fingerprint that a descriptor already holds is
  kept as it is. The same holds for a single \<open>compare_content\<close>, which moreover computes a
  full fingerprint only when the quick fingerprints of its two files are present and equal.
\<close>

theorem fingerprints_memoised:
  assumes md5: "\<And>bs. md5_hexdigest e bs \<noteq> []"
    and sha: "\<And>bs. sha256_hexdigest e bs \<noteq> []"
    and ok: "memo_ok (heap st) (hash_log st)"
  shows "(let st' = snd (add_dir_index e d st) in
            memo_ok (heap st') (hash_log st')
          \<and> (\<forall>r. count_list (hash_log st') (QuickHashed r) \<le> 1
                \<and> count_list (hash_log st') (FullHashed r) \<le> 1)
          \<and> (\<forall>r. truthy (quick_hash (heap st r))
                \<longrightarrow> quick_hash (heap st' r) = quick_hash (heap st r))
          \<and> (\<forall>r. truthy (full_hash (heap st r))
                \<longrightarrow> full_hash (heap st' r) = full_hash (heap st r)))
       \<and> (let w' = snd (compare_content e a b st) in
            memo_ok (heap w') (hash_log w')
          \<and> (\<forall>r. truthy (quick_hash (heap st r))
                \<longrightarrow> quick_hash (heap w' r) = quick_hash (heap st r))
          \<and> (\<forall>r. truthy (full_hash (heap st r))
                \<longrightarrow> full_hash (heap w' r) = full_hash (heap st r))
          \<and> (\<forall>r. count_list (hash_log w') (FullHashed r)
                    \<noteq> count_list (hash_log st) (FullHashed r)
                \<longrightarrow> quick_hash (heap w' a) \<noteq> None
                  \<and> quick_hash (heap w' a) = quick_hash (heap w' b)))"
proof -
  let ?P = "\<lambda>h l. memo_ok h l
      \<and> (\<forall>x. truthy (quick_hash (heap st x)) \<longrightarrow> quick_hash (h x) = quick_hash (heap st x))
      \<and> (\<forall>x. truthy (full_hash (heap st x)) \<longrightarrow> full_hash (h x) = full_hash (heap st x))"
  have p0: "?P (heap st) (hash_log st)" using ok by simp
  have q: "?P (heap v1) (hash_log v1)"
    if "?P (heap v) (hash_log v)" "fill_quick_hash e r v = Inr v1" for r and v v1 :: state
    using md5 that by (rule memo_invariant_quick)
  have f: "?P (heap v1) (hash_log v1)"
    if "?P (heap v) (hash_log v)" "fill_full_hash e r v = Inr v1" for r and v v1 :: state
    using sha that by (rule memo_invariant_full)
  have run: "?P (heap (snd (add_dir_index e d st))) (hash_log (snd (add_dir_index e d st)))"
    using p0 q f by (rule add_dir_index_invariant)
  have call: "?P (heap (snd (compare_content e a b st))) (hash_log (snd (compare_content e a b st)))"
    using p0 q f by (rule compare_content_invariant)
  have once: "count_list l (QuickHashed r) \<le> 1 \<and> count_list l (FullHashed r) \<le> 1"
    if "memo_ok h l" for h l r
    using memo_okD[OF that, of r] by (auto split: if_splits)
  have a: "\<forall>r. count_list (hash_log (snd (add_dir_index e d st))) (QuickHashed r) \<le> 1
             \<and> count_list (hash_log (snd (add_dir_index e d st))) (FullHashed r) \<le> 1"
    using run once by blast
  have c: "\<forall>r. count_list (hash_log (snd (compare_content e a b st))) (FullHashed r)
                    \<noteq> count_list (hash_log st) (FullHashed r)
                \<longrightarrow> quick_hash (heap (snd (compare_content e a b st)) a) \<noteq> None
                  \<and> quick_hash (heap (snd (compare_content e a b st)) a)
                     = quick_hash (heap (snd (compare_content e a b st)) b)"
    using compare_content_full_after_quick[of e a b st] by blast
  show ?thesis
    unfolding Let_def using run call a c by blast
qed

lemma toy_digest_nonempty: "toy_digest bs \<noteq> []"
  by (simp add: toy_digest_def)

theorem fingerprints_memoised_witness:
  "(\<forall>r. count_list (hash_log (snd (add_dir_index example_env example_dir
                                      (init_manager example_world)))) (QuickHashed r) \<le> 1
      \<and> count_list (hash_log (snd (add_dir_index example_env example_dir
                                      (init_manager example_world)))) (FullHashed r) \<le> 1)
   \<and> memo_ok (heap (snd (compare_content example_env 0 1 (init_manager example_world))))
        (hash_log (snd (compare_content example_env 0 1 (init_manager example_world))))"
proof -
  have md5: "\<And>bs. md5_hexdigest example_env bs \<noteq> []"
    and sha: "\<And>bs. sha256_hexdigest example_env bs \<noteq> []"
    by (simp_all add: example_env_def toy_digest_nonempty)
  have ok: "memo_ok (heap (init_manager example_world)) (hash_log (init_manager example_world))"
    by (simp add: memo_ok_def init_manager_def example_world_def)
  show ?thesis
    using fingerprints_memoised[of example_env "init_manager example_world" example_dir 0 1,
        OF md5 sha ok]
    unfolding Let_def by blast
qed

section \<open>The pair cache\<close>

lemmas manager_defs =
  init_manager_def new_ComparisonIndex_def add_comparison_def add_file_def dict_set_def
  analyze_file_def add_dir_index_def Let_def

text \<open>
  C3. A run on the example tree. File \<open>0\<close> is compared with file \<open>1\<close> of its name group
  and the outcome is stored in the pair cache under the key of the two files. When file \<open>0\<close>
  is then compared against its size group, the lookup under the key of the manager and file
  \<open>1\<close> finds nothing, and the pair is compared again. At the end of \<open>add_dir_index\<close> the
  bucket holds the pair once in each order.
\<close>

theorem cached_pair_is_compared_again:
  "fst (compare_file_against_group example_env 0 [0, 1] [] (init_manager example_world))
     = Inr [\<lparr>fileA = 0, fileB = 1, comp_type = CONTENT_NAME_DUP\<rparr>]
   \<and> comparison_cache
        (snd (add_comparisons [\<lparr>fileA = 0, fileB = 1, comp_type = CONTENT_NAME_DUP\<rparr>] False
           (snd (compare_file_against_group example_env 0 [0, 1] []
                   (init_manager example_world)))))
        (FileObj 0, FileObj 1)
     = Some \<lparr>fileA = 0, fileB = 1, comp_type = CONTENT_NAME_DUP\<rparr>
   \<and> fst (compare_file_against_group example_env 0 [0, 1, 2] []
        (snd (add_comparisons [\<lparr>fileA = 0, fileB = 1, comp_type = CONTENT_NAME_DUP\<rparr>] False
           (snd (compare_file_against_group example_env 0 [0, 1] []
                   (init_manager example_world))))))
     = Inr [\<lparr>fileA = 0, fileB = 1, comp_type = CONTENT_NAME_DUP\<rparr>,
            \<lparr>fileA = 0, fileB = 2, comp_type = UNIQUE\<rparr>]
   \<and> comparisons (snd (add_dir_index example_env example_dir (init_manager example_world)))
        CONTENT_NAME_DUP
     = [(PairKey 0 1, [0, 1]), (PairKey 1 0, [1, 0])]"
proof (intro conjI)
  show "fst (compare_file_against_group example_env 0 [0, 1] [] (init_manager example_world))
     = Inr [\<lparr>fileA = 0, fileB = 1, comp_type = CONTENT_NAME_DUP\<rparr>]"
    by (simp add: file_defs example_defs manager_defs)
  show "comparison_cache
        (snd (add_comparisons [\<lparr>fileA = 0, fileB = 1, comp_type = CONTENT_NAME_DUP\<rparr>] False
           (snd (compare_file_against_group example_env 0 [0, 1] []
                   (init_manager example_world)))))
        (FileObj 0, FileObj 1)
     = Some \<lparr>fileA = 0, fileB = 1, comp_type = CONTENT_NAME_DUP\<rparr>"
    by (simp add: file_defs example_defs manager_defs)
  show "fst (compare_file_against_group example_env 0 [0, 1, 2] []
        (snd (add_comparisons [\<lparr>fileA = 0, fileB = 1, comp_type = CONTENT_NAME_DUP\<rparr>] False
           (snd (compare_file_against_group example_env 0 [0, 1] []
                   (init_manager example_world))))))
     = Inr [\<lparr>fileA = 0, fileB = 1, comp_type = CONTENT_NAME_DUP\<rparr>,
            \<lparr>fileA = 0, fileB = 2, comp_type = UNIQUE\<rparr>]"
    by (simp add: file_defs example_defs manager_defs)
  show "comparisons (snd (add_dir_index example_env example_dir (init_manager example_world)))
        CONTENT_NAME_DUP
     = [(PairKey 0 1, [0, 1]), (PairKey 1 0, [1, 0])]"
    by (simp add: file_defs example_defs manager_defs)
qed

section \<open>Recording the outcomes\<close>




lemma keys_dict_set:
  "map fst (dict_set k v d) = (if k \<in> fst ` set d then map fst d else map fst d @ [k])"
  by (auto simp: dict_set_def intro: map_idI split: prod.splits)

text \<open>The manager's own fields are not touched by the comparison of two files.\<close>

lemma fill_quick_hash_manager:
  fixes v :: state
  assumes "fill_quick_hash e r v = Inr v1"
  shows "comparisons v1 = comparisons v" and "comparison_cache v1 = comparison_cache v"
    and "cli_log v1 = cli_log v"
  using assms by (auto simp: fill_quick_hash_def split: if_splits sum.splits)

lemma fill_full_hash_manager:
  fixes v :: state
  assumes "fill_full_hash e r v = Inr v1"
  shows "comparisons v1 = comparisons v" and "comparison_cache v1 = comparison_cache v"
    and "cli_log v1 = cli_log v"
  using assms by (auto simp: fill_full_hash_def split: if_splits sum.splits)


lemma compare_file_against_group_manager:
  "comparisons (snd (compare_file_against_group e file others found st)) = comparisons st
   \<and> comparison_cache (snd (compare_file_against_group e file others found st))
       = comparison_cache st
   \<and> cli_log (snd (compare_file_against_group e file others found st)) = cli_log st"
  by (rule compare_file_against_group_preserves
        [where P = "\<lambda>v. comparisons v = comparisons st
                      \<and> comparison_cache v = comparison_cache st \<and> cli_log v = cli_log st"])
     (simp_all add: fill_quick_hash_manager fill_full_hash_manager)










section \<open>Input and output errors\<close>

lemma compare_file_against_group_append:
  "compare_file_against_group e file (xs @ ys) found st =
     (case compare_file_against_group e file xs found st of
        (Inl x, st') \<Rightarrow> (Inl x, st')
      | (Inr found', st') \<Rightarrow> compare_file_against_group e file ys found' st')"
  by (induction xs arbitrary: found st) (auto split: prod.splits sum.splits option.splits)

lemma add_dir_index_loop_append:
  "add_dir_index_loop e d (xs @ ys) st =
     (case add_dir_index_loop e d xs st of
        (Inl x, st') \<Rightarrow> (Inl x, st')
      | (Inr u, st') \<Rightarrow> add_dir_index_loop e d ys st')"
  by (induction xs arbitrary: st) (auto split: prod.splits sum.splits)

text \<open>
  C5, as the code has it. Nothing catches the exception of a file that cannot be read. It
  leaves \<open>compare_content\<close> and \<open>compare_to\<close>; the comparison of the file against the group
  ends with it, and the outcomes collected for the group so far are dropped; the analysis
  of the file ends with it, whichever of its two passes raised it; and \<open>add_dir_index\<close> ends
  with it, so that the files after it in the list are not classified.
\<close>

theorem io_error_ends_the_run:
  "(file \<noteq> other
      \<and> compare_file_against_group e file others1 found0 sa = (Inr found, sb)
      \<and> comparison_cache sb (ManagerObj, FileObj other) = None
      \<and> compare_content e file other sb = (Inl x, sc)
    \<longrightarrow> x = IOError
      \<and> compare_to e file other sb = (Inl x, sc)
      \<and> compare_file_against_group e file (others1 @ other # others2) found0 sa = (Inl x, sc))
   \<and> (name_index d (name (heap st f)) = Some ns
      \<and> (compare_file_against_group e f ns [] st = (Inl y, st')
         \<or> (\<exists>ncs st1 fn st2 ss.
               compare_file_against_group e f ns [] st = (Inr ncs, st1)
             \<and> add_comparisons ncs False st1 = (fn, st2)
             \<and> size_index d (size_f (heap st2 f)) = Some ss
             \<and> compare_file_against_group e f ss [] st2 = (Inl y, st')))
    \<longrightarrow> analyze_file e d f st = (Inl y, st'))
   \<and> (file_list d' = before @ g # after
      \<and> add_dir_index_loop e d' before s0 = (Inr (), s1)
      \<and> analyze_file e d' g s1 = (Inl z, s2)
    \<longrightarrow> add_dir_index e d' s0 = (Inl z, s2))"
proof (intro conjI impI)
  assume h: "file \<noteq> other
      \<and> compare_file_against_group e file others1 found0 sa = (Inr found, sb)
      \<and> comparison_cache sb (ManagerObj, FileObj other) = None
      \<and> compare_content e file other sb = (Inl x, sc)"
  then show "x = IOError" using compare_content_error by blast
  from h show ct: "compare_to e file other sb = (Inl x, sc)"
    by (simp add: compare_to_def)
  from h ct show "compare_file_against_group e file (others1 @ other # others2) found0 sa
                    = (Inl x, sc)"
    by (simp add: compare_file_against_group_append)
next
  assume h: "name_index d (name (heap st f)) = Some ns
      \<and> (compare_file_against_group e f ns [] st = (Inl y, st')
         \<or> (\<exists>ncs st1 fn st2 ss.
               compare_file_against_group e f ns [] st = (Inr ncs, st1)
             \<and> add_comparisons ncs False st1 = (fn, st2)
             \<and> size_index d (size_f (heap st2 f)) = Some ss
             \<and> compare_file_against_group e f ss [] st2 = (Inl y, st')))"
  then show "analyze_file e d f st = (Inl y, st')"
    by (auto simp: analyze_file_def)
next
  assume h: "file_list d' = before @ g # after
      \<and> add_dir_index_loop e d' before s0 = (Inr (), s1)
      \<and> analyze_file e d' g s1 = (Inl z, s2)"
  then show "add_dir_index e d' s0 = (Inl z, s2)"
    by (simp add: add_dir_index_def add_dir_index_loop_append)
qed


text \<open>
  The statement of the spec fails on the example: the file that cannot be opened is
  the first of the list, the run ends with the exception at its first comparison, and the
  two files behind it, a pair with the same name and content, are never classified.
\<close>

theorem unreadable_file_aborts_add_dir_index:
  "fst (add_dir_index example_env example_dir_unreadable (init_manager example_world))
     = Inl IOError
   \<and> comparisons
        (snd (add_dir_index example_env example_dir_unreadable (init_manager example_world)))
       = comparisons (init_manager example_world)
   \<and> comparison_cache
        (snd (add_dir_index example_env example_dir_unreadable (init_manager example_world)))
        (FileObj 0, FileObj 1) = None"
proof (intro conjI)
  show "fst (add_dir_index example_env example_dir_unreadable (init_manager example_world))
     = Inl IOError"
    by (simp add: file_defs example_defs manager_defs)
  show "comparisons
        (snd (add_dir_index example_env example_dir_unreadable (init_manager example_world)))
       = comparisons (init_manager example_world)"
    by (simp add: file_defs example_defs manager_defs)
  show "comparison_cache
        (snd (add_dir_index example_env example_dir_unreadable (init_manager example_world)))
        (FileObj 0, FileObj 1) = None"
    by (simp add: file_defs example_defs manager_defs)
qed

theorem io_error_ends_the_run_witness:
  "compare_to example_env 3 0 (init_manager example_world)
     = (Inl IOError, snd (compare_content example_env 3 0 (init_manager example_world)))
   \<and> add_dir_index example_env example_dir_unreadable (init_manager example_world)
     = (Inl IOError, snd (compare_content example_env 3 0 (init_manager example_world)))"
proof -
  let ?st = "init_manager example_world"
  let ?sc = "snd (compare_content example_env 3 0 ?st)"
  have ne: "(3::nat) \<noteq> 0" by simp
  have g0: "compare_file_against_group example_env 3 [3] [] ?st = (Inr [], ?st)"
    by simp
  have miss: "comparison_cache ?st (ManagerObj, FileObj 0) = None"
    by (simp add: init_manager_def)
  have cc: "compare_content example_env 3 0 ?st = (Inl IOError, ?sc)"
    by (rule prod_eqI) (simp_all add: file_defs example_defs manager_defs)
  note t = io_error_ends_the_run[of 3 0 example_env "[3]" "[]" ?st "[]" ?st IOError ?sc "[1]"
      example_dir_unreadable ?st 3 "[3]" IOError ?sc
      example_dir_unreadable "[]" 3 "[0, 1]" ?st ?st IOError ?sc]
  have pair: "compare_to example_env 3 0 ?st = (Inl IOError, ?sc)"
    and grp: "compare_file_against_group example_env 3 ([3] @ 0 # [1]) [] ?st = (Inl IOError, ?sc)"
    using t ne g0 miss cc by blast+
  have nm: "name_index example_dir_unreadable (name (heap ?st 3)) = Some [3]"
    by (simp add: example_defs manager_defs)
  have a0: "add_comparisons [] False ?st = (False, ?st)" by simp
  have sz: "size_index example_dir_unreadable (size_f (heap ?st 3)) = Some [3, 0, 1]"
    by (simp add: example_defs manager_defs)
  have "\<exists>ncs st1 fn st2 ss.
               compare_file_against_group example_env 3 [3] [] ?st = (Inr ncs, st1)
             \<and> add_comparisons ncs False st1 = (fn, st2)
             \<and> size_index example_dir_unreadable (size_f (heap st2 3)) = Some ss
             \<and> compare_file_against_group example_env 3 ss [] st2 = (Inl IOError, ?sc)"
    using g0 a0 sz grp by (intro exI[of _ "[]"] exI[of _ ?st] exI[of _ False] exI[of _ "[3, 0, 1]"]) simp
  with t nm have af: "analyze_file example_env example_dir_unreadable 3 ?st = (Inl IOError, ?sc)"
    by blast
  have fl: "file_list example_dir_unreadable = [] @ 3 # [0, 1]"
    by (simp add: example_defs)
  have l0: "add_dir_index_loop example_env example_dir_unreadable [] ?st = (Inr (), ?st)"
    by simp
  from t fl l0 af
  have "add_dir_index example_env example_dir_unreadable ?st = (Inl IOError, ?sc)"
    by blast
  with pair show ?thesis by simp
qed

section \<open>The suppressed category\<close>

lemma compare_to_not_PATH_DUP:
  assumes "fst (compare_to e a b w) = Inr (Some c)"
  shows "comp_type c \<noteq> PATH_DUP"
proof (cases "a = b")
  case True
  then show ?thesis using assms by (simp add: compare_to_def)
next
  case False
  obtain r w' where cc: "compare_content e a b w = (r, w')"
    by (cases "compare_content e a b w")
  show ?thesis
  proof (cases r)
    case (Inl x)
    then show ?thesis using assms False cc by (simp add: compare_to_def)
  next
    case (Inr sc)
    obtain t where t: "find (\<lambda>t. CompType_value t Path
                = (parent (rel_path (heap w a)) = parent (rel_path (heap w b)))
            \<and> CompType_value t Name = (name (heap w a) = name (heap w b))
            \<and> CompType_value t Content = sc) CompType_members = Some t"
      using find_traits by blast
    show ?thesis using assms False cc Inr t
      by (auto simp: compare_to_def Let_def split: if_splits)
  qed
qed

lemma compare_file_against_group_not_PATH_DUP:
  assumes "\<forall>c \<in> set found. comp_type c \<noteq> PATH_DUP"
    and "fst (compare_file_against_group e file others found st) = Inr cs"
  shows "\<forall>c \<in> set cs. comp_type c \<noteq> PATH_DUP"
  using assms
proof (induction others arbitrary: found st)
  case Nil
  then show ?case by simp
next
  case (Cons other_file others)
  obtain r st' where ct: "compare_to e file other_file st = (r, st')"
    by (cases "compare_to e file other_file st")
  show ?case
  proof (cases "file \<noteq> other_file
         \<and> \<not> (comparison_cache st (ManagerObj, FileObj other_file) \<noteq> None
              \<or> comparison_cache st (ManagerObj, FileObj other_file) \<noteq> None)")
    case False
    then have "compare_file_against_group e file (other_file # others) found st
             = compare_file_against_group e file others found st"
      by auto
    then show ?thesis using Cons by simp
  next
    case True
    show ?thesis
    proof (cases r)
      case (Inl x)
      then show ?thesis using Cons.prems True ct by simp
    next
      case (Inr nc)
      show ?thesis
      proof (cases nc)
        case None
        then have "compare_file_against_group e file (other_file # others) found st
             = compare_file_against_group e file others found st'"
          using True ct Inr by simp
        then show ?thesis using Cons by simp
      next
        case (Some c)
        then have "comp_type c \<noteq> PATH_DUP"
          using compare_to_not_PATH_DUP[of e "file" other_file st c] ct Inr by simp
        then have f': "\<forall>c \<in> set (found @ [c]). comp_type c \<noteq> PATH_DUP"
          using Cons.prems(1) by simp
        have "compare_file_against_group e file (other_file # others) found st
             = compare_file_against_group e file others (found @ [c]) st'"
          using True ct Inr Some by simp
        then show ?thesis using Cons.IH[OF f'] Cons.prems(2) by simp
      qed
    qed
  qed
qed

lemma add_comparisons_other_bucket:
  "\<forall>c \<in> set cs. comp_type c \<noteq> t \<Longrightarrow>
   comparisons (snd (add_comparisons cs fl st)) t = comparisons st t"
  by (induction cs arbitrary: fl st) (auto simp: Let_def)


lemma analyze_file_PATH_DUP:
  "comparisons (snd (analyze_file e d file st)) PATH_DUP = comparisons st PATH_DUP"
proof (cases "name_index d (name (heap st file))")
  case None
  then show ?thesis by (simp add: analyze_file_def)
next
  case (Some same_name_files)
  obtain r1 st1 where g1: "compare_file_against_group e file same_name_files [] st = (r1, st1)"
    by (cases "compare_file_against_group e file same_name_files [] st")
  have m1: "comparisons st1 = comparisons st"
    using compare_file_against_group_manager[of e "file" same_name_files "[]" st] g1 by simp
  show ?thesis
  proof (cases r1)
    case (Inl x)
    then show ?thesis using Some g1 m1 by (simp add: analyze_file_def)
  next
    case (Inr ncs)
    have n1: "\<forall>c \<in> set ncs. comp_type c \<noteq> PATH_DUP"
      using compare_file_against_group_not_PATH_DUP[of "[]" e "file" same_name_files st ncs]
        g1 Inr by simp
    obtain fn st2 where a1: "add_comparisons ncs False st1 = (fn, st2)"
      by (cases "add_comparisons ncs False st1")
    have m2: "comparisons st2 PATH_DUP = comparisons st PATH_DUP"
      using add_comparisons_other_bucket[OF n1, of False st1] a1 m1 by simp
    show ?thesis
    proof (cases "size_index d (size_f (heap st2 file))")
      case None
      then show ?thesis using Some g1 Inr a1 m2 by (simp add: analyze_file_def)
    next
      case ss: (Some same_size_files)
      obtain r3 st3 where g3: "compare_file_against_group e file same_size_files [] st2 = (r3, st3)"
        by (cases "compare_file_against_group e file same_size_files [] st2")
      have m3: "comparisons st3 = comparisons st2"
        using compare_file_against_group_manager[of e "file" same_size_files "[]" st2] g3 by simp
      show ?thesis
      proof (cases r3)
        case (Inl x)
        then show ?thesis using Some g1 Inr a1 ss g3 m2 m3 by (simp add: analyze_file_def)
      next
        case r3: (Inr scs)
        have n3: "\<forall>c \<in> set scs. comp_type c \<noteq> PATH_DUP"
          using compare_file_against_group_not_PATH_DUP[of "[]" e "file" same_size_files st2 scs]
            g3 r3 by simp
        obtain fs st4 where a3: "add_comparisons scs False st3 = (fs, st4)"
          by (cases "add_comparisons scs False st3")
        have m4: "comparisons st4 PATH_DUP = comparisons st PATH_DUP"
          using add_comparisons_other_bucket[OF n3, of False st3] a3 m3 m2 by simp
        show ?thesis using Some g1 Inr a1 ss g3 r3 a3 m4 by (simp add: analyze_file_def)
      qed
    qed
  qed
qed

lemma add_dir_index_PATH_DUP:
  "comparisons (snd (add_dir_index e d st)) PATH_DUP = comparisons st PATH_DUP"
proof -
  have "comparisons (snd (add_dir_index_loop e d files st)) PATH_DUP = comparisons st PATH_DUP"
    for files
  proof (induction files arbitrary: st)
    case Nil
    show ?case by simp
  next
    case (Cons x files)
    obtain r st' where af: "analyze_file e d x st = (r, st')"
      by (cases "analyze_file e d x st")
    have "comparisons st' PATH_DUP = comparisons st PATH_DUP"
      using analyze_file_PATH_DUP[of e d x st] af by simp
    then show ?case using af Cons.IH[of st'] by (cases r) simp_all
  qed
  then show ?thesis by (simp add: add_dir_index_def)
qed


text \<open>What the resolution of one category leaves alone.\<close>

lemma resolve_matches_loop_frame:
  "cli_log (snd (resolve_matches_loop ks st)) = cli_log st
   \<and> (\<forall>t. t \<noteq> MATCH \<longrightarrow> comparisons (snd (resolve_matches_loop ks st)) t = comparisons st t)"
proof (induction ks arbitrary: st)
  case Nil
  show ?case by simp
next
  case (Cons key ks)
  show ?case
  proof (cases "map_of (comparisons st MATCH) key")
    case None
    then show ?thesis by simp
  next
    case (Some matches)
    show ?thesis
    proof (cases matches)
      case Nil
      then show ?thesis using Some by simp
    next
      case (Cons m ms)
      let ?st' = "st\<lparr>comparisons :=
                       (comparisons st)
                         (MATCH := set_comparisons key [m] (comparisons st MATCH))\<rparr>"
      have "resolve_matches_loop (key # ks) st = resolve_matches_loop ks ?st'"
        using Some Cons by simp
      then show ?thesis using Cons.IH[of ?st'] by simp
    qed
  qed
qed

text \<open>One round of the loop of \<open>resolve_dups\<close>, with the transcript it leaves.\<close>

lemma resolve_dups_loop_step:
  assumes "map_of (comparisons st t) key = Some dup_list"
  obtains choice st3 evs where
    "cli_log st3 = cli_log st @ evs @ [Prompt_keep_options dup_list choice]"
    "set evs \<subseteq> {Display_files t dup_list, Prompt_build_diff dup_list}"
    "choice = u (cli_log st @ evs) dup_list"
    "comparisons st3 = comparisons st"
    "resolve_dups_loop u t (key # ks) tr st =
       (if choice = [] then
          (case dup_list of
             [] \<Rightarrow> (Inl IndexError, st3)
           | f # fs \<Rightarrow> resolve_dups_loop u t ks (tr @ [f]) st3)
        else resolve_dups_loop u t ks tr
               (st3\<lparr>comparisons :=
                      (comparisons st3)
                        (t := set_comparisons key choice (comparisons st3 t))\<rparr>))"
proof (cases "CompType_value t Content")
  case True
  let ?evs = "[Display_files t dup_list]"
  let ?choice = "u (cli_log st @ ?evs) dup_list"
  let ?st3 = "st\<lparr>cli_log := cli_log st @ ?evs @ [Prompt_keep_options dup_list ?choice]\<rparr>"
  show ?thesis
    by (rule that[of ?st3 ?evs ?choice]; simp add: assms True Let_def split: list.splits)
next
  case False
  let ?evs = "[Display_files t dup_list, Prompt_build_diff dup_list]"
  let ?choice = "u (cli_log st @ ?evs) dup_list"
  let ?st3 = "st\<lparr>cli_log := cli_log st @ ?evs @ [Prompt_keep_options dup_list ?choice]\<rparr>"
  show ?thesis
    by (rule that[of ?st3 ?evs ?choice]; simp add: assms False Let_def split: list.splits)
qed

lemma resolve_dups_loop_frame:
  "(\<exists>evs. cli_log (snd (resolve_dups_loop u t ks tr st)) = cli_log st @ evs
         \<and> (\<forall>t' l. Display_files t' l \<in> set evs \<longrightarrow> t' = t))
   \<and> (\<forall>t'. t' \<noteq> t \<longrightarrow> comparisons (snd (resolve_dups_loop u t ks tr st)) t' = comparisons st t')"
proof (induction ks arbitrary: tr st)
  case Nil
  show ?case by simp
next
  case (Cons key ks)
  show ?case
  proof (cases "map_of (comparisons st t) key")
    case None
    then show ?thesis by simp
  next
    case (Some dup_list)
    then obtain choice st3 evs where
      log3: "cli_log st3 = cli_log st @ evs @ [Prompt_keep_options dup_list choice]"
      and evs: "set evs \<subseteq> {Display_files t dup_list, Prompt_build_diff dup_list}"
      and cmp3: "comparisons st3 = comparisons st"
      and step: "resolve_dups_loop u t (key # ks) tr st =
       (if choice = [] then
          (case dup_list of
             [] \<Rightarrow> (Inl IndexError, st3)
           | f # fs \<Rightarrow> resolve_dups_loop u t ks (tr @ [f]) st3)
        else resolve_dups_loop u t ks tr
               (st3\<lparr>comparisons :=
                      (comparisons st3)
                        (t := set_comparisons key choice (comparisons st3 t))\<rparr>))"
      by (rule resolve_dups_loop_step[of st t key dup_list u ks tr])
    let ?new = "evs @ [Prompt_keep_options dup_list choice]"
    have new: "\<forall>t' l. Display_files t' l \<in> set ?new \<longrightarrow> t' = t"
      using evs by auto
    have ext: "\<exists>evs'. cli_log s' = cli_log st @ evs'
                 \<and> (\<forall>t' l. Display_files t' l \<in> set evs' \<longrightarrow> t' = t)"
      if "\<exists>evs'. cli_log s' = cli_log s @ evs'
                 \<and> (\<forall>t' l. Display_files t' l \<in> set evs' \<longrightarrow> t' = t)"
        and "cli_log s = cli_log st3" for s s' :: state
    proof -
      from that obtain evs' where e: "cli_log s' = cli_log st3 @ evs'"
        "\<forall>t' l. Display_files t' l \<in> set evs' \<longrightarrow> t' = t"
        by auto
      have "cli_log s' = cli_log st @ (?new @ evs')" using e(1) log3 by simp
      moreover have "\<forall>t' l. Display_files t' l \<in> set (?new @ evs') \<longrightarrow> t' = t"
        using new e(2) by auto
      ultimately show ?thesis by blast
    qed
    show ?thesis
    proof (cases "choice = []")
      case True
      show ?thesis
      proof (cases dup_list)
        case Nil
        have "snd (resolve_dups_loop u t (key # ks) tr st) = st3"
          using step True Nil by simp
        moreover have "\<exists>evs'. cli_log st3 = cli_log st @ evs'
                 \<and> (\<forall>t' l. Display_files t' l \<in> set evs' \<longrightarrow> t' = t)"
          using log3 new by blast
        ultimately show ?thesis using cmp3 by simp
      next
        case (Cons f fs)
        have s: "resolve_dups_loop u t (key # ks) tr st
                = resolve_dups_loop u t ks (tr @ [f]) st3"
          using step True Cons by simp
        show ?thesis
          unfolding s using Cons.IH[of "tr @ [f]" st3] ext[of _ st3] cmp3 by simp
      qed
    next
      case False
      let ?st4 = "st3\<lparr>comparisons :=
                      (comparisons st3)
                        (t := set_comparisons key choice (comparisons st3 t))\<rparr>"
      have s: "resolve_dups_loop u t (key # ks) tr st = resolve_dups_loop u t ks tr ?st4"
        using step False by simp
      have "cli_log ?st4 = cli_log st3" by simp
      then show ?thesis
        unfolding s using Cons.IH[of tr ?st4] ext[of _ ?st4] cmp3 by simp
    qed
  qed
qed


lemma resolve_dups_empty_bucket:
  assumes "comparisons st t = []"
  shows "resolve_dups u t st = (Inr (), st)"
proof -
  have "(comparisons st)(t := []) = comparisons st" using assms by auto
  then show ?thesis using assms by (simp add: resolve_dups_def)
qed

lemma resolve_dups_frame:
  "(\<exists>evs. cli_log (snd (resolve_dups u t st)) = cli_log st @ evs
         \<and> (\<forall>t' l. Display_files t' l \<in> set evs \<longrightarrow> t' = t))
   \<and> (\<forall>t'. t' \<noteq> t \<longrightarrow> comparisons (snd (resolve_dups u t st)) t' = comparisons st t')"
proof -
  obtain r st' where l: "resolve_dups_loop u t (map fst (comparisons st t)) [] st = (r, st')"
    by (cases "resolve_dups_loop u t (map fst (comparisons st t)) [] st")
  have f: "(\<exists>evs. cli_log st' = cli_log st @ evs
         \<and> (\<forall>t' l. Display_files t' l \<in> set evs \<longrightarrow> t' = t))
   \<and> (\<forall>t'. t' \<noteq> t \<longrightarrow> comparisons st' t' = comparisons st t')"
    using resolve_dups_loop_frame[of u t "map fst (comparisons st t)" "[]" st] l by simp
  show ?thesis using l f by (cases r) (simp_all add: resolve_dups_def)
qed

lemma resolve_matches_frame:
  "cli_log (snd (resolve_matches st)) = cli_log st
   \<and> (\<forall>t. t \<noteq> MATCH \<longrightarrow> comparisons (snd (resolve_matches st)) t = comparisons st t)"
  using resolve_matches_loop_frame by (simp add: resolve_matches_def)

lemma resolve_all_loop_PATH_DUP_bucket:
  assumes "comparisons st PATH_DUP = []"
  shows "comparisons (snd (resolve_all_loop u types st)) PATH_DUP = []"
  using assms
proof (induction types arbitrary: st)
  case Nil
  then show ?case by simp
next
  case (Cons type types)
  show ?case
  proof (cases "type = MATCH")
    case True
    obtain r st' where rm: "resolve_matches st = (r, st')" by (cases "resolve_matches st")
    have "comparisons st' PATH_DUP = []"
      using resolve_matches_frame[of st] rm Cons.prems by simp
    then show ?thesis using True rm Cons.IH[of st'] by (cases r) simp_all
  next
    case nm: False
    show ?thesis
    proof (cases "type = UNIQUE")
      case True
      then show ?thesis using Cons by simp
    next
      case nu: False
      obtain r st' where rd: "resolve_dups u type st = (r, st')"
        by (cases "resolve_dups u type st")
      have keep: "comparisons st' PATH_DUP = []"
      proof (cases "type = PATH_DUP")
        case True
        then have "st' = st" using resolve_dups_empty_bucket[of st PATH_DUP u] rd Cons.prems(1)
          by simp
        then show ?thesis using Cons.prems by simp
      next
        case False
        then show ?thesis using resolve_dups_frame[of u type st] rd Cons.prems by simp
      qed
      then show ?thesis using nm nu rd Cons.IH[of st'] by (cases r) simp_all
    qed
  qed
qed

lemma resolve_all_loop_PATH_DUP:
  assumes "comparisons st PATH_DUP = []"
    and "\<forall>l. Display_files PATH_DUP l \<notin> set (cli_log st)"
  shows "comparisons (snd (resolve_all_loop u types st)) PATH_DUP = []
       \<and> (\<forall>l. Display_files PATH_DUP l \<notin> set (cli_log (snd (resolve_all_loop u types st))))"
  using assms
proof (induction types arbitrary: st)
  case Nil
  then show ?case by simp
next
  case (Cons type types)
  show ?case
  proof (cases "type = MATCH")
    case True
    obtain r st' where rm: "resolve_matches st = (r, st')" by (cases "resolve_matches st")
    have "comparisons st' PATH_DUP = []" "\<forall>l. Display_files PATH_DUP l \<notin> set (cli_log st')"
      using resolve_matches_frame[of st] rm Cons.prems by simp_all
    then show ?thesis using True rm Cons.IH[of st'] by (cases r) simp_all
  next
    case nm: False
    show ?thesis
    proof (cases "type = UNIQUE")
      case True
      then show ?thesis using Cons by simp
    next
      case nu: False
      obtain r st' where rd: "resolve_dups u type st = (r, st')"
        by (cases "resolve_dups u type st")
      have keep: "comparisons st' PATH_DUP = []
                  \<and> (\<forall>l. Display_files PATH_DUP l \<notin> set (cli_log st'))"
      proof (cases "type = PATH_DUP")
        case True
        then have "st' = st" using resolve_dups_empty_bucket[of st PATH_DUP u] rd Cons.prems(1)
          by simp
        then show ?thesis using Cons.prems by simp
      next
        case False
        from resolve_dups_frame[of u type st] rd obtain evs where
          e: "cli_log st' = cli_log st @ evs"
            "\<forall>t' l. Display_files t' l \<in> set evs \<longrightarrow> t' = type"
          and o: "\<forall>t'. t' \<noteq> type \<longrightarrow> comparisons st' t' = comparisons st t'"
          by auto
        have "Display_files PATH_DUP l \<notin> set evs" for l
          using e(2) False by blast
        then show ?thesis using e(1) o False Cons.prems by auto
      qed
      then show ?thesis using nm nu rd Cons.IH[of st'] by (cases r) simp_all
    qed
  qed
qed


text \<open>
  C10. The bucket of \<open>PATH_DUP\<close> is empty in a new manager, and \<open>compare_to\<close> never returns
  an outcome of that category; so the bucket stays empty through \<open>add_dir_index\<close> and through
  \<open>resolve_all\<close>. On the empty bucket \<open>resolve_dups\<close> does nothing, and \<open>resolve_all\<close>, which
  calls it for \<open>PATH_DUP\<close> as for the other categories, never displays a group of that
  category.
\<close>

theorem path_dup_bucket_is_always_empty:
  "comparisons (init_manager w) PATH_DUP = []
   \<and> \<not> (\<exists>c. fst (compare_to e a b st) = Inr (Some c) \<and> comp_type c = PATH_DUP)
   \<and> (comparisons st PATH_DUP = [] \<longrightarrow>
         comparisons (snd (add_dir_index e d st)) PATH_DUP = []
       \<and> comparisons (snd (resolve_all u st)) PATH_DUP = []
       \<and> resolve_dups u PATH_DUP st = (Inr (), st)
       \<and> ((\<forall>l. Display_files PATH_DUP l \<notin> set (cli_log st)) \<longrightarrow>
            (\<forall>l. Display_files PATH_DUP l \<notin> set (cli_log (snd (resolve_all u st))))))"
proof (intro conjI impI)
  show "comparisons (init_manager w) PATH_DUP = []"
    by (simp add: init_manager_def new_ComparisonIndex_def)
  show "\<not> (\<exists>c. fst (compare_to e a b st) = Inr (Some c) \<and> comp_type c = PATH_DUP)"
    using compare_to_not_PATH_DUP by blast
next
  assume "comparisons st PATH_DUP = []"
  then show "comparisons (snd (add_dir_index e d st)) PATH_DUP = []"
    by (simp add: add_dir_index_PATH_DUP)
next
  assume "comparisons st PATH_DUP = []"
  then show "resolve_dups u PATH_DUP st = (Inr (), st)"
    by (rule resolve_dups_empty_bucket)
next
  assume "comparisons st PATH_DUP = []"
  then show "comparisons (snd (resolve_all u st)) PATH_DUP = []"
    by (simp add: resolve_all_def resolve_all_loop_PATH_DUP_bucket)
next
  assume "comparisons st PATH_DUP = []" "\<forall>l. Display_files PATH_DUP l \<notin> set (cli_log st)"
  then show "\<forall>l. Display_files PATH_DUP l \<notin> set (cli_log (snd (resolve_all u st)))"
    using resolve_all_loop_PATH_DUP[of st u CompType_members] by (simp add: resolve_all_def)
qed


theorem path_dup_bucket_is_always_empty_witness:
  "fst (compare_to example_env 2 5 (init_manager example_world)) = Inr None
   \<and> comparisons (snd (add_dir_index example_env example_dir_same_folder
                         (init_manager example_world))) PATH_DUP = []
   \<and> resolve_dups (\<lambda>log l. l) PATH_DUP
        (snd (add_dir_index example_env example_dir_same_folder (init_manager example_world)))
       = (Inr (),
          snd (add_dir_index example_env example_dir_same_folder (init_manager example_world)))
   \<and> (\<forall>l. Display_files PATH_DUP l
          \<notin> set (cli_log (snd (resolve_all (\<lambda>log l. l)
                (snd (add_dir_index example_env example_dir_same_folder
                        (init_manager example_world)))))))"
proof -
  let ?st = "init_manager example_world"
  let ?st' = "snd (add_dir_index example_env example_dir_same_folder ?st)"
  have none: "fst (compare_to example_env 2 5 ?st) = Inr None"
    by (simp add: file_defs example_defs manager_defs)
  have e0: "comparisons ?st PATH_DUP = []"
    using path_dup_bucket_is_always_empty[of example_world] by blast
  have e1: "comparisons ?st' PATH_DUP = []"
    using path_dup_bucket_is_always_empty[of example_world example_env 2 5 ?st
        example_dir_same_folder] e0 by blast
  have log: "\<forall>l. Display_files PATH_DUP l \<notin> set (cli_log ?st')"
    by (simp add: file_defs example_defs manager_defs)
  show ?thesis
    using path_dup_bucket_is_always_empty[of example_world example_env 2 5 ?st'
        example_dir_same_folder "\<lambda>log l. l"] none e1 log by blast
qed

section \<open>Resolution\<close>

lemma dict_set_present:
  "k \<in> fst ` set d \<Longrightarrow>
   dict_set k v d = map (\<lambda>(k', v'). if k' = k then (k', v) else (k', v')) d"
  by (simp add: dict_set_def)

lemma keys_replace:
  "map fst (map (\<lambda>(k', v'). if k' = k then (k', v) else (k', v')) d) = map fst d"
  by (induction d) auto

lemma resolve_matches_loop_result:
  assumes "distinct (map fst (comparisons st MATCH))"
    and "set ks \<subseteq> fst ` set (comparisons st MATCH)"
    and "\<forall>ms \<in> snd ` set (comparisons st MATCH). ms \<noteq> []"
  shows "resolve_matches_loop ks st =
     (Inr (),
      st\<lparr>comparisons :=
           (comparisons st)
             (MATCH := map (\<lambda>(k, ms). if k \<in> set ks then (k, [hd ms]) else (k, ms))
                         (comparisons st MATCH))\<rparr>)"
  using assms
proof (induction ks arbitrary: st)
  case Nil
  have "map (\<lambda>(k, ms). (k, ms)) (comparisons st MATCH) = comparisons st MATCH"
    by (induction "comparisons st MATCH") auto
  then show ?case by simp
next
  case (Cons key ks)
  let ?idx = "comparisons st MATCH"
  from Cons.prems(2) obtain matches where in_idx: "(key, matches) \<in> set ?idx"
    by auto
  then have look: "map_of ?idx key = Some matches"
    using Cons.prems(1) by simp
  have "matches \<noteq> []" using in_idx Cons.prems(3) by force
  then obtain m ms where mm: "matches = m # ms" by (cases matches) auto
  have present: "key \<in> fst ` set ?idx" using in_idx by force
  let ?f = "\<lambda>(k', v'). if k' = key then (k', [m]) else (k', v')"
  let ?idx' = "map ?f ?idx"
  have set': "set_comparisons key [m] ?idx = ?idx'"
    using present by (simp add: set_comparisons_def dict_set_present)
  let ?st' = "st\<lparr>comparisons := (comparisons st)(MATCH := ?idx')\<rparr>"
  have step: "resolve_matches_loop (key # ks) st = resolve_matches_loop ks ?st'"
    using look mm set' by simp
  have keys': "map fst ?idx' = map fst ?idx"
    by (rule keys_replace)
  have cmp': "comparisons ?st' MATCH = ?idx'" by simp
  have p1: "distinct (map fst (comparisons ?st' MATCH))"
    using Cons.prems(1) keys' cmp' by metis
  have p2: "set ks \<subseteq> fst ` set (comparisons ?st' MATCH)"
  proof -
    have "fst ` set ?idx' = fst ` set ?idx"
      using keys' by (metis list.set_map)
    then show ?thesis using Cons.prems(2) cmp' by auto
  qed
  have p3: "\<forall>ms \<in> snd ` set (comparisons ?st' MATCH). ms \<noteq> []"
    unfolding cmp' using Cons.prems(3) by (auto split: if_splits)
  have comp: "map (\<lambda>(k, ms). if k \<in> set ks then (k, [hd ms]) else (k, ms)) ?idx'
            = map (\<lambda>(k, ms). if k \<in> set (key # ks) then (k, [hd ms]) else (k, ms)) ?idx"
  proof -
    have "(case ?f x of (k, ms) \<Rightarrow> if k \<in> set ks then (k, [hd ms]) else (k, ms))
        = (case x of (k, ms) \<Rightarrow> if k \<in> set (key # ks) then (k, [hd ms]) else (k, ms))"
      if "x \<in> set ?idx" for x
    proof -
      obtain k v where x: "x = (k, v)" by (cases x)
      show ?thesis
      proof (cases "k = key")
        case True
        then have "map_of ?idx key = Some v" using that x Cons.prems(1) by simp
        then have "v = m # ms" using look mm by simp
        then show ?thesis using True x by simp
      next
        case False
        then show ?thesis using x by simp
      qed
    qed
    then show ?thesis by (simp add: comp_def)
  qed
  define new where
    "new = map (\<lambda>(k, ms). if k \<in> set ks then (k, [hd ms]) else (k, ms))
             (comparisons ?st' MATCH)"
  have new_eq: "new = map (\<lambda>(k, ms). if k \<in> set (key # ks) then (k, [hd ms]) else (k, ms)) ?idx"
    unfolding new_def cmp' by (rule comp)
  have ih: "resolve_matches_loop ks ?st'
              = (Inr (), ?st'\<lparr>comparisons := (comparisons ?st')(MATCH := new)\<rparr>)"
    unfolding new_def by (rule Cons.IH[OF p1 p2 p3])
  have fe: "(comparisons ?st')(MATCH := new) = (comparisons st)(MATCH := new)"
    by (simp add: fun_eq_iff)
  have re: "?st'\<lparr>comparisons := (comparisons ?st')(MATCH := new)\<rparr>
          = st\<lparr>comparisons := (comparisons st)(MATCH := new)\<rparr>"
    unfolding fe by simp
  have "resolve_matches_loop (key # ks) st
          = (Inr (), st\<lparr>comparisons := (comparisons st)(MATCH := new)\<rparr>)"
    by (simp only: step ih re)
  then show ?case by (simp only: new_eq)
qed


text \<open>
  C6. \<open>resolve_matches\<close> on a bucket whose groups all have a member (the first member of an
  empty group does not exist, and \<^verbatim>\<open>matches[0]\<close> raises): every group of the \<open>MATCH\<close> bucket is
  left with exactly its first member, all its other members are gone, nothing else in the
  manager changes, and the transcript of the prompt collaborator is as it was.
\<close>

theorem resolve_matches_keeps_first:
  assumes "distinct (map fst (comparisons st MATCH))"
    and "\<forall>ms \<in> snd ` set (comparisons st MATCH). ms \<noteq> []"
  shows "resolve_matches st =
     (Inr (),
      st\<lparr>comparisons :=
           (comparisons st)
             (MATCH := map (\<lambda>(k, ms). (k, [hd ms])) (comparisons st MATCH))\<rparr>)
   \<and> cli_log (snd (resolve_matches st)) = cli_log st"
proof -
  have sub: "set (map fst (comparisons st MATCH)) \<subseteq> fst ` set (comparisons st MATCH)"
    by simp
  have "map (\<lambda>(k, ms). if k \<in> set (map fst (comparisons st MATCH)) then (k, [hd ms])
                        else (k, ms)) (comparisons st MATCH)
        = map (\<lambda>(k, ms). (k, [hd ms])) (comparisons st MATCH)"
    by (rule map_cong) force+
  then have "resolve_matches st =
     (Inr (),
      st\<lparr>comparisons :=
           (comparisons st)
             (MATCH := map (\<lambda>(k, ms). (k, [hd ms])) (comparisons st MATCH))\<rparr>)"
    using resolve_matches_loop_result[OF assms(1) sub assms(2)]
    by (simp only: resolve_matches_def)
  then show ?thesis by simp
qed

theorem resolve_matches_keeps_first_witness:
  "comparisons (snd (resolve_matches example_resolution)) MATCH
     = [(PairKey 0 1, [0]), (PairKey 2 5, [2])]
   \<and> cli_log (snd (resolve_matches example_resolution)) = []"
proof -
  have d: "distinct (map fst (comparisons example_resolution MATCH))"
    by (simp add: example_resolution_def)
  have n: "\<forall>ms \<in> snd ` set (comparisons example_resolution MATCH). ms \<noteq> []"
    by (simp add: example_resolution_def)
  have m: "comparisons example_resolution MATCH = [(PairKey 0 1, [0, 1]), (PairKey 2 5, [2, 5, 4])]"
    and l: "cli_log example_resolution = []"
    by (simp_all add: example_resolution_def init_manager_def)
  from resolve_matches_keeps_first[OF d n]
  show ?thesis by (simp add: m l)
qed

section \<open>A file that produces no outcome\<close>























text \<open>
  On an index that groups its files by name and by size, a file that produces no outcome
  against its groups is in no outcome that the turn of another file produces.
\<close>

lemma in_other_bucket_UNIQUE [simp]:
  "in_other_bucket f (cmp(UNIQUE := x)) = in_other_bucket f cmp"
  by (auto simp: in_other_bucket_def)











end
